theory Spec2Isabelle
  imports Main
begin

section \<open>The maze game: data model\<close>

text \<open>
  A shallow embedding of \<^verbatim>\<open>maze_game.py\<close>. Cell indices that the generator and the
  pathfinder compute are natural numbers: every subtraction there is guarded by a bounds
  check on the row or the column. The player's cell is an integer, since
  \<^verbatim>\<open>handle_player_movement\<close> moves it without a bounds check. Exceptions are values
  of type \<open>error\<close>; a loop that might not return yields \<open>None\<close>.
\<close>

definition WINDOW_SIZE :: int where "WINDOW_SIZE = 600"
definition LEVELS_TO_WIN :: nat where "LEVELS_TO_WIN = 25"
definition OFFSET :: int where "OFFSET = 40"

definition UP :: int where "UP = 0"
definition DOWN :: int where "DOWN = 1"
definition LEFT :: int where "LEFT = 2"
definition RIGHT :: int where "RIGHT = 3"
definition WAITING :: int where "WAITING = - 1"

datatype error = IndexError | ZeroDivisionError

record cell =
  row :: nat
  col :: nat
  x_pos :: int
  y_pos :: int
  visited :: bool
  north :: bool
  south :: bool
  east :: bool
  west :: bool

text \<open>
  The fields of \<^verbatim>\<open>MazeGame\<close> (the pygame handles apart). \<open>agent_path\<close> is
  \<open>None\<close> when \<^verbatim>\<open>compute_path\<close> returned Python's \<^verbatim>\<open>None\<close>.
\<close>

record game =
  cols :: nat
  rows :: nat
  n_cells :: nat
  delay :: int
  level :: nat
  elapsed_time :: int
  start_time :: int
  delay_time :: int
  quit :: bool
  game_over :: bool
  current_cell :: int
  agent_cell :: nat
  exit_cell :: nat
  player_next_move :: int
  agent_path :: "nat list option"
  maze_cells :: "cell list"
  offset :: "int \<times> int"
  cell_size :: int

subsection \<open>Python list access\<close>

definition bind_e :: "error + 'a \<Rightarrow> ('a \<Rightarrow> error + 'b) \<Rightarrow> error + 'b" where
  "bind_e m f = (case m of Inl e \<Rightarrow> Inl e | Inr x \<Rightarrow> f x)"

text \<open>\<^verbatim>\<open>xs[i]\<close> for an index known to be non-negative.\<close>

definition item :: "'a list \<Rightarrow> nat \<Rightarrow> error + 'a" where
  "item xs i = (if i < length xs then Inr (xs ! i) else Inl IndexError)"

text \<open>\<^verbatim>\<open>xs[i]\<close> for any integer: a negative index counts from the end.\<close>

definition getitem :: "'a list \<Rightarrow> int \<Rightarrow> error + 'a" where
  "getitem xs i =
     (if 0 \<le> i \<and> i < int (length xs) then Inr (xs ! nat i)
      else if i < 0 \<and> - int (length xs) \<le> i then Inr (xs ! nat (int (length xs) + i))
      else Inl IndexError)"

text \<open>\<^verbatim>\<open>xs[i] = v\<close> and \<^verbatim>\<open>xs[i].field = v\<close>.\<close>

definition assign :: "'a list \<Rightarrow> nat \<Rightarrow> 'a \<Rightarrow> error + 'a list" where
  "assign xs i v = (if i < length xs then Inr (xs[i := v]) else Inl IndexError)"

definition modify :: "'a list \<Rightarrow> nat \<Rightarrow> ('a \<Rightarrow> 'a) \<Rightarrow> error + 'a list" where
  "modify xs i f = (if i < length xs then Inr (xs[i := f (xs ! i)]) else Inl IndexError)"

subsection \<open>The random source\<close>

text \<open>
  The generator \<^verbatim>\<open>random\<close> is a stream of raw draws \<open>rnd :: nat \<Rightarrow> nat\<close> read at a
  counter. \<^verbatim>\<open>random.choice(xs)\<close> picks the element at the draw modulo the length.
\<close>

definition choice :: "nat \<Rightarrow> 'a list \<Rightarrow> error + 'a" where
  "choice r xs = (if xs = [] then Inl IndexError else Inr (xs ! (r mod length xs)))"

definition randrange :: "int \<Rightarrow> int \<Rightarrow> nat \<Rightarrow> int" where
  "randrange lo hi r = lo + int r mod (hi - lo)"

section \<open>Maze generation\<close>

definition Cell :: "nat \<Rightarrow> nat \<Rightarrow> int \<Rightarrow> int \<times> int \<Rightarrow> cell" where
  "Cell r c sz off =
     \<lparr> row = r, col = c, x_pos = int c * sz + fst off, y_pos = int r * sz + snd off,
       visited = False, north = True, south = True, east = True, west = True \<rparr>"

definition calculate_cell_size_and_offsets :: "game \<Rightarrow> error + game" where
  "calculate_cell_size_and_offsets g =
     (if cols g = 0 \<or> rows g = 0 then Inl ZeroDivisionError
      else
        let sz = min ((WINDOW_SIZE - OFFSET * 2) div int (cols g))
                       ((WINDOW_SIZE - OFFSET * 2) div int (rows g));
            maze_width = int (cols g) * sz;
            maze_height = int (rows g) * sz
        in Inr (g\<lparr> cell_size := sz,
                   offset := ((WINDOW_SIZE - maze_width) div 2, (WINDOW_SIZE - maze_height) div 2) \<rparr>))"

definition fresh_cells :: "game \<Rightarrow> cell list" where
  "fresh_cells g =
     concat (map (\<lambda>r. map (\<lambda>c. Cell r c (cell_size g) (offset g)) [0..<cols g]) [0..<rows g])"

definition unvisited_at :: "cell list \<Rightarrow> nat \<Rightarrow> error + bool" where
  "unvisited_at cs i = bind_e (item cs i) (\<lambda>c. Inr (\<not> visited c))"

definition get_unvisited_neighbors :: "game \<Rightarrow> nat \<Rightarrow> error + (nat \<times> int) list" where
  "get_unvisited_neighbors g cell =
     (if cols g = 0 then Inl ZeroDivisionError
      else
        let r = cell div cols g; c = cell mod cols g in
        bind_e (if r > 0 then unvisited_at (maze_cells g) (cell - cols g) else Inr False) (\<lambda>up.
        bind_e (if r < rows g - 1 then unvisited_at (maze_cells g) (cell + cols g) else Inr False) (\<lambda>down.
        bind_e (if c > 0 then unvisited_at (maze_cells g) (cell - 1) else Inr False) (\<lambda>left.
        bind_e (if c < cols g - 1 then unvisited_at (maze_cells g) (cell + 1) else Inr False) (\<lambda>right.
        Inr ((if up then [(cell - cols g, UP)] else [])
           @ (if down then [(cell + cols g, DOWN)] else [])
           @ (if left then [(cell - 1, LEFT)] else [])
           @ (if right then [(cell + 1, RIGHT)] else [])))))))"

definition open_pair ::
  "game \<Rightarrow> nat \<Rightarrow> (cell \<Rightarrow> cell) \<Rightarrow> nat \<Rightarrow> (cell \<Rightarrow> cell) \<Rightarrow> error + game" where
  "open_pair g i f j h =
     bind_e (modify (maze_cells g) i f) (\<lambda>cs.
     bind_e (modify cs j h) (\<lambda>cs'. Inr (g\<lparr>maze_cells := cs'\<rparr>)))"

definition remove_adj_walls :: "game \<Rightarrow> nat \<Rightarrow> nat \<Rightarrow> int \<Rightarrow> error + game" where
  "remove_adj_walls g cell neighbor direction =
     (if direction = UP then
        open_pair g cell (\<lambda>c. c\<lparr>north := False\<rparr>) neighbor (\<lambda>c. c\<lparr>south := False\<rparr>)
      else if direction = DOWN then
        open_pair g cell (\<lambda>c. c\<lparr>south := False\<rparr>) neighbor (\<lambda>c. c\<lparr>north := False\<rparr>)
      else if direction = LEFT then
        open_pair g cell (\<lambda>c. c\<lparr>west := False\<rparr>) neighbor (\<lambda>c. c\<lparr>east := False\<rparr>)
      else if direction = RIGHT then
        open_pair g cell (\<lambda>c. c\<lparr>east := False\<rparr>) neighbor (\<lambda>c. c\<lparr>west := False\<rparr>)
      else Inr g)"

definition mark_visited :: "game \<Rightarrow> nat \<Rightarrow> error + game" where
  "mark_visited g i =
     bind_e (modify (maze_cells g) i (\<lambda>c. c\<lparr>visited := True\<rparr>)) (\<lambda>cs. Inr (g\<lparr>maze_cells := cs\<rparr>))"

text \<open>
  One iteration of the loop of \<^verbatim>\<open>back_tracker\<close> on the loop's variables: the game,
  the stack (its top is the last element), the current cell, the count of visited cells
  and the counter of the random source. With no unvisited neighbour and an empty stack the
  iteration changes nothing, so the loop would not return from such a state.
\<close>

type_synonym bt_state = "game \<times> nat list \<times> nat \<times> nat \<times> nat"

definition bt_step :: "(nat \<Rightarrow> nat) \<Rightarrow> bt_state \<Rightarrow> error + bt_state" where
  "bt_step rnd st =
     (case st of (g, stack, current, visited_cells, k) \<Rightarrow>
        bind_e (get_unvisited_neighbors g current) (\<lambda>neighbors.
          if neighbors \<noteq> [] then
            bind_e (choice (rnd k) neighbors) (\<lambda>(next_cell, direction).
            bind_e (remove_adj_walls g current next_cell direction) (\<lambda>g1.
            bind_e (mark_visited g1 next_cell) (\<lambda>g2.
            Inr (g2, stack @ [current], next_cell, visited_cells + 1, k + 1))))
          else if stack \<noteq> [] then
            Inr (g, butlast stack, last stack, visited_cells, k)
          else Inr (g, stack, current, visited_cells, k)))"

fun game_of :: "bt_state \<Rightarrow> game" where
  "game_of (g, stack, current, visited_cells, k) = g"

fun stack_of :: "bt_state \<Rightarrow> nat list" where
  "stack_of (g, stack, current, visited_cells, k) = stack"

fun count_of :: "bt_state \<Rightarrow> nat" where
  "count_of (g, stack, current, visited_cells, k) = visited_cells"

fun draws_of :: "bt_state \<Rightarrow> nat" where
  "draws_of (g, stack, current, visited_cells, k) = k"

text \<open>The loop variables on entry: cell 0 is current and visited, the stack is empty.\<close>

definition bt_entry :: "game \<Rightarrow> nat \<Rightarrow> error + bt_state" where
  "bt_entry g k = bind_e (mark_visited g 0) (\<lambda>g0. Inr (g0, [], 0, 1, k))"

partial_function (option) back_tracker_loop ::
  "(nat \<Rightarrow> nat) \<Rightarrow> bt_state \<Rightarrow> (error + bt_state) option" where
  "back_tracker_loop rnd st =
     (if count_of st < n_cells (game_of st) then
        (case bt_step rnd st of
           Inl e \<Rightarrow> Some (Inl e)
         | Inr st' \<Rightarrow> back_tracker_loop rnd st')
      else Some (Inr st))"

definition back_tracker :: "(nat \<Rightarrow> nat) \<Rightarrow> nat \<Rightarrow> game \<Rightarrow> (error + game \<times> nat) option" where
  "back_tracker rnd k g =
     (case bt_entry g k of
        Inl e \<Rightarrow> Some (Inl e)
      | Inr st0 \<Rightarrow>
          (case back_tracker_loop rnd st0 of
             None \<Rightarrow> None
           | Some (Inl e) \<Rightarrow> Some (Inl e)
           | Some (Inr st) \<Rightarrow> Some (Inr (game_of st, draws_of st))))"

definition generate_maze :: "(nat \<Rightarrow> nat) \<Rightarrow> nat \<Rightarrow> game \<Rightarrow> (error + game \<times> nat) option" where
  "generate_maze rnd k g =
     (case calculate_cell_size_and_offsets g of
        Inl e \<Rightarrow> Some (Inl e)
      | Inr g1 \<Rightarrow> back_tracker rnd k (g1\<lparr>maze_cells := fresh_cells g1\<rparr>))"

section \<open>Pathfinding\<close>

definition get_neighbors :: "game \<Rightarrow> nat \<Rightarrow> error + (nat \<times> int) list" where
  "get_neighbors g cell =
     (if cols g = 0 then Inl ZeroDivisionError
      else
        let r = cell div cols g; c = cell mod cols g in
        bind_e (item (maze_cells g) cell) (\<lambda>walls.
        Inr ((if \<not> north walls \<and> r > 0 then [(cell - cols g, UP)] else [])
           @ (if \<not> south walls \<and> r < rows g - 1 then [(cell + cols g, DOWN)] else [])
           @ (if \<not> west walls \<and> c > 0 then [(cell - 1, LEFT)] else [])
           @ (if \<not> east walls \<and> c < cols g - 1 then [(cell + 1, RIGHT)] else []))))"

text \<open>
  The search state of \<^verbatim>\<open>compute_path\<close>: the FIFO queue (front first), the visited
  flags and the parent array, whose entry \<^verbatim>\<open>-1\<close> is \<open>None\<close>.
\<close>

type_synonym bfs_state = "nat list \<times> bool list \<times> nat option list"

fun visit_neighbors :: "nat \<Rightarrow> (nat \<times> int) list \<Rightarrow> bfs_state \<Rightarrow> error + bfs_state" where
  "visit_neighbors current [] st = Inr st"
| "visit_neighbors current ((neighbor, direction) # rest) (queue, visited_flags, parent) =
     bind_e (item visited_flags neighbor) (\<lambda>v.
       if \<not> v then
         bind_e (assign visited_flags neighbor True) (\<lambda>visited_flags'.
         bind_e (assign parent neighbor (Some current)) (\<lambda>parent'.
         visit_neighbors current rest (queue @ [neighbor], visited_flags', parent')))
       else visit_neighbors current rest (queue, visited_flags, parent))"

text \<open>The inner loop that follows the parent pointers back from the target.\<close>

partial_function (option) build_path ::
  "nat option list \<Rightarrow> nat option \<Rightarrow> nat list \<Rightarrow> (error + nat list) option" where
  "build_path parent current path =
     (case current of
        None \<Rightarrow> Some (Inr path)
      | Some c \<Rightarrow>
          (case item parent c of
             Inl e \<Rightarrow> Some (Inl e)
           | Inr p \<Rightarrow> build_path parent p (c # path)))"

text \<open>
  The result is \<open>Inr (Some path)\<close> for a returned path and \<open>Inr None\<close> when the
  loop ends with the queue empty and the function falls off its end.
\<close>

partial_function (option) bfs_loop ::
  "game \<Rightarrow> nat \<Rightarrow> bfs_state \<Rightarrow> (error + nat list option) option" where
  "bfs_loop g target_cell st =
     (case fst st of
        [] \<Rightarrow> Some (Inr None)
      | current # queue \<Rightarrow>
          if current = target_cell then
            (case build_path (snd (snd st)) (Some current) [] of
               None \<Rightarrow> None
             | Some (Inl e) \<Rightarrow> Some (Inl e)
             | Some (Inr path) \<Rightarrow> Some (Inr (Some path)))
          else
            (case get_neighbors g current of
               Inl e \<Rightarrow> Some (Inl e)
             | Inr neighbors \<Rightarrow>
                 (case visit_neighbors current neighbors (queue, snd st) of
                    Inl e \<Rightarrow> Some (Inl e)
                  | Inr st' \<Rightarrow> bfs_loop g target_cell st')))"

definition compute_path :: "game \<Rightarrow> nat \<Rightarrow> nat \<Rightarrow> (error + nat list option) option" where
  "compute_path g start_cell target_cell =
     (case assign (replicate (n_cells g) False) start_cell True of
        Inl e \<Rightarrow> Some (Inl e)
      | Inr visited_flags \<Rightarrow>
          bfs_loop g target_cell ([start_cell], visited_flags, replicate (n_cells g) None))"

section \<open>The session\<close>

definition load_level :: "(nat \<Rightarrow> nat) \<Rightarrow> nat \<Rightarrow> int \<Rightarrow> game \<Rightarrow> (error + game \<times> nat) option" where
  "load_level rnd k now g =
     (let g1 = g\<lparr>level := level g + 1, cols := cols g + 1, rows := rows g + 1\<rparr>;
          g2 = g1\<lparr>n_cells := cols g1 * rows g1\<rparr>
      in case generate_maze rnd k g2 of
           None \<Rightarrow> None
         | Some (Inl e) \<Rightarrow> Some (Inl e)
         | Some (Inr (g3, k3)) \<Rightarrow>
             (case choice (rnd k3) [0..<n_cells g3] of
                Inl e \<Rightarrow> Some (Inl e)
              | Inr ex \<Rightarrow>
                  let g4 = g3\<lparr>current_cell := 0, exit_cell := ex, agent_cell := 0\<rparr>
                  in (case compute_path g4 (agent_cell g4) (exit_cell g4) of
                        None \<Rightarrow> None
                      | Some (Inl e) \<Rightarrow> Some (Inl e)
                      | Some (Inr p) \<Rightarrow>
                          Some (Inr (g4\<lparr>agent_path := p, start_time := now, delay_time := now\<rparr>,
                                     k3 + 1)))))"

text \<open>
  The constructor: \<open>t0\<close> and \<open>t1\<close> are the clock readings of its two calls of
  \<^verbatim>\<open>get_ticks\<close>.
\<close>

definition MazeGame :: "(nat \<Rightarrow> nat) \<Rightarrow> nat \<Rightarrow> int \<Rightarrow> int \<Rightarrow> (error + game \<times> nat) option" where
  "MazeGame rnd k t0 t1 =
     load_level rnd k t1
       \<lparr> cols = 3, rows = 3, n_cells = 3 * 3, delay = 300, level = 0, elapsed_time = 0,
         start_time = t0, delay_time = t0, quit = False, game_over = False,
         current_cell = 0, agent_cell = 0, exit_cell = 0, player_next_move = WAITING,
         agent_path = Some [], maze_cells = [], offset = (0, 0), cell_size = 50 \<rparr>"

text \<open>The assignments of \<^verbatim>\<open>reset_game\<close> before its call of \<^verbatim>\<open>load_level\<close>.\<close>

definition reset_fields :: "game \<Rightarrow> game" where
  "reset_fields g =
     (let g1 = g\<lparr>cols := 3, rows := 3, level := 0\<rparr>
      in g1\<lparr> n_cells := cols g1 * rows g1, current_cell := 0, agent_cell := 0, exit_cell := 0,
              player_next_move := WAITING, agent_path := Some [] \<rparr>)"

definition reset_game :: "(nat \<Rightarrow> nat) \<Rightarrow> nat \<Rightarrow> int \<Rightarrow> game \<Rightarrow> (error + game \<times> nat) option" where
  "reset_game rnd k now g = load_level rnd k now (reset_fields g)"

subsection \<open>Player and agent movement\<close>

definition wall_open :: "game \<Rightarrow> (cell \<Rightarrow> bool) \<Rightarrow> error + bool" where
  "wall_open g wall = bind_e (getitem (maze_cells g) (current_cell g)) (\<lambda>c. Inr (\<not> wall c))"

definition handle_player_movement :: "game \<Rightarrow> error + game" where
  "handle_player_movement g =
     bind_e
       (bind_e (if player_next_move g = UP then wall_open g north else Inr False) (\<lambda>up.
          if up then Inr (g\<lparr>current_cell := current_cell g - int (cols g)\<rparr>)
          else
        bind_e (if player_next_move g = DOWN then wall_open g south else Inr False) (\<lambda>down.
          if down then Inr (g\<lparr>current_cell := current_cell g + int (cols g)\<rparr>)
          else
        bind_e (if player_next_move g = LEFT then wall_open g west else Inr False) (\<lambda>left.
          if left then Inr (g\<lparr>current_cell := current_cell g - 1\<rparr>)
          else
        bind_e (if player_next_move g = RIGHT then wall_open g east else Inr False) (\<lambda>right.
          if right then Inr (g\<lparr>current_cell := current_cell g + 1\<rparr>)
          else Inr g)))))
       (\<lambda>g'. Inr (g'\<lparr>player_next_move := WAITING\<rparr>))"

text \<open>
  \<open>r\<close> is the raw draw behind \<^verbatim>\<open>random.randrange(200, 300)\<close>; \<open>now1\<close> and
  \<open>now2\<close> are the clock readings of the two calls of \<^verbatim>\<open>get_ticks\<close>. A path that is
  \<^verbatim>\<open>None\<close> or empty is falsy.
\<close>

definition handle_agent_movement :: "nat \<Rightarrow> int \<Rightarrow> int \<Rightarrow> game \<Rightarrow> game" where
  "handle_agent_movement r now1 now2 g =
     (let g1 = g\<lparr>delay := randrange 200 300 r\<rparr>
      in if now1 - delay_time g1 \<ge> delay g1 then
           (case agent_path g1 of
              Some (c # rest) \<Rightarrow> g1\<lparr>agent_cell := c, agent_path := Some rest, delay_time := now2\<rparr>
            | _ \<Rightarrow> g1)
         else g1)"

subsection \<open>Level clear, end of game and restart\<close>

datatype screen = Playing | Ended string

text \<open>
  The check at the head of each tick of \<^verbatim>\<open>game_loop\<close>. \<^verbatim>\<open>handle_game_over\<close> sets the
  flag, shows its text and waits for a key: the model returns the end screen.
\<close>

definition check_exit ::
  "(nat \<Rightarrow> nat) \<Rightarrow> nat \<Rightarrow> int \<Rightarrow> game \<Rightarrow> (error + screen \<times> game \<times> nat) option" where
  "check_exit rnd k now g =
     (if current_cell g = int (exit_cell g) then
        (if level g < LEVELS_TO_WIN then
           (case load_level rnd k now g of
              None \<Rightarrow> None
            | Some (Inl e) \<Rightarrow> Some (Inl e)
            | Some (Inr (g', k')) \<Rightarrow> Some (Inr (Playing, g', k')))
         else Some (Inr (Ended ''YOU WIN!'', g\<lparr>game_over := True\<rparr>, k)))
      else if agent_cell g = exit_cell g then
        Some (Inr (Ended ''GAME OVER!'', g\<lparr>game_over := True\<rparr>, k))
      else Some (Inr (Playing, g, k)))"

text \<open>The return key on the end screen.\<close>

definition restart :: "(nat \<Rightarrow> nat) \<Rightarrow> nat \<Rightarrow> int \<Rightarrow> game \<Rightarrow> (error + game \<times> nat) option" where
  "restart rnd k now g =
     (case reset_game rnd k now g of
        None \<Rightarrow> None
      | Some (Inl e) \<Rightarrow> Some (Inl e)
      | Some (Inr (g', k')) \<Rightarrow> Some (Inr (g'\<lparr>game_over := False\<rparr>, k')))"

declare back_tracker_loop.simps [code]
declare build_path.simps [code]
declare bfs_loop.simps [code]

section \<open>Specification vocabulary\<close>

subsection \<open>Well-formed grids\<close>

text \<open>
  A grid is well formed when it has at least one row and one column and the cell list has
  one cell per index, as \<^verbatim>\<open>load_level\<close> and \<^verbatim>\<open>generate_maze\<close> establish.
\<close>

definition wf_grid :: "game \<Rightarrow> bool" where
  "wf_grid g \<longleftrightarrow>
     0 < cols g \<and> 0 < rows g \<and> n_cells g = cols g * rows g \<and> length (maze_cells g) = n_cells g"

text \<open>The grid before generation: no cell visited, all four walls of every cell closed.\<close>

definition walled :: "game \<Rightarrow> bool" where
  "walled g \<longleftrightarrow>
     (\<forall>c \<in> set (maze_cells g). \<not> visited c \<and> north c \<and> south c \<and> east c \<and> west c)"

subsection \<open>Directions\<close>

datatype dir = U | D | L | Rt

fun code :: "dir \<Rightarrow> int" where
  "code U = UP" | "code D = DOWN" | "code L = LEFT" | "code Rt = RIGHT"

fun opp :: "dir \<Rightarrow> dir" where
  "opp U = D" | "opp D = U" | "opp L = Rt" | "opp Rt = L"

fun flag :: "dir \<Rightarrow> cell \<Rightarrow> bool" where
  "flag U c = north c" | "flag D c = south c" | "flag L c = west c" | "flag Rt c = east c"

fun clear :: "dir \<Rightarrow> cell \<Rightarrow> cell" where
  "clear U c = c\<lparr>north := False\<rparr>"
| "clear D c = c\<lparr>south := False\<rparr>"
| "clear L c = c\<lparr>west := False\<rparr>"
| "clear Rt c = c\<lparr>east := False\<rparr>"

text \<open>The index arithmetic of the grid: the neighbour in a direction and when it exists.\<close>

fun nb :: "nat \<Rightarrow> dir \<Rightarrow> nat \<Rightarrow> nat" where
  "nb C U i = i - C" | "nb C D i = i + C" | "nb C L i = i - 1" | "nb C Rt i = i + 1"

fun ingrid :: "nat \<Rightarrow> nat \<Rightarrow> dir \<Rightarrow> nat \<Rightarrow> bool" where
  "ingrid C R U i \<longleftrightarrow> 0 < i div C"
| "ingrid C R D i \<longleftrightarrow> i div C < R - 1"
| "ingrid C R L i \<longleftrightarrow> 0 < i mod C"
| "ingrid C R Rt i \<longleftrightarrow> i mod C < C - 1"

subsection \<open>The open-wall graph\<close>

text \<open>
  The graph the pathfinder walks: \<open>j\<close> is a neighbour of \<open>i\<close> when
  \<^verbatim>\<open>get_neighbors(i)\<close> lists it.
\<close>

definition passage :: "game \<Rightarrow> nat \<Rightarrow> nat \<Rightarrow> bool" where
  "passage g i j \<longleftrightarrow>
     i < n_cells g \<and> (case get_neighbors g i of Inl e \<Rightarrow> False | Inr ns \<Rightarrow> j \<in> fst ` set ns)"

definition passages :: "game \<Rightarrow> (nat \<times> nat) set" where
  "passages g = {(i, j). passage g i j}"

text \<open>The same graph read off the wall flags.\<close>

definition links :: "game \<Rightarrow> (nat \<times> nat) set" where
  "links g = {(i, nb (cols g) d i) | i d. i < n_cells g \<and> \<not> flag d (maze_cells g ! i)}"

text \<open>
  The open boundaries of the maze, stated on the grid and the wall flags alone: two cells
  of the grid, one directly above the other or side by side in one row, with the two wall
  flags on their shared boundary both false.
\<close>

definition open_between :: "game \<Rightarrow> nat \<Rightarrow> nat \<Rightarrow> bool" where
  "open_between g i j \<longleftrightarrow>
     i < n_cells g \<and> j < n_cells g \<and>
     (j = i + cols g \<and> \<not> south (maze_cells g ! i) \<and> \<not> north (maze_cells g ! j) \<or>
      i = j + cols g \<and> \<not> north (maze_cells g ! i) \<and> \<not> south (maze_cells g ! j) \<or>
      j = i + 1 \<and> i div cols g = j div cols g \<and>
        \<not> east (maze_cells g ! i) \<and> \<not> west (maze_cells g ! j) \<or>
      i = j + 1 \<and> i div cols g = j div cols g \<and>
        \<not> west (maze_cells g ! i) \<and> \<not> east (maze_cells g ! j))"

definition doors :: "game \<Rightarrow> (nat \<times> nat) set" where
  "doors g = {(i, j). open_between g i j}"

text \<open>
  A cycle of an undirected graph: at least three distinct vertices, each joined to the
  next and the last to the first.
\<close>

definition cycle :: "(nat \<times> nat) set \<Rightarrow> nat list \<Rightarrow> bool" where
  "cycle E xs \<longleftrightarrow>
     3 \<le> length xs \<and> distinct xs \<and> (\<forall>k < length xs. (xs ! k, xs ! (Suc k mod length xs)) \<in> E)"

text \<open>The undirected edges, each counted once.\<close>

definition uedges :: "(nat \<times> nat) set \<Rightarrow> (nat \<times> nat) set" where
  "uedges E = {(i, j). (i, j) \<in> E \<and> i < j}"

definition spanning_tree :: "game \<Rightarrow> bool" where
  "spanning_tree g \<longleftrightarrow>
     sym (passages g) \<and>
     card (uedges (passages g)) = n_cells g - 1 \<and>
     (\<forall>i < n_cells g. \<forall>j < n_cells g. (i, j) \<in> (passages g)\<^sup>*) \<and>
     (\<forall>xs. \<not> cycle (passages g) xs)"

subsection \<open>The invariant of the generation loop\<close>

definition vis :: "game \<Rightarrow> nat set" where
  "vis g = {i. i < n_cells g \<and> visited (maze_cells g ! i)}"

text \<open>An open wall leads to a cell of the grid whose facing wall is open too.\<close>

definition walls_ok :: "game \<Rightarrow> bool" where
  "walls_ok g \<longleftrightarrow>
     (\<forall>i < n_cells g. \<forall>d. \<not> flag d (maze_cells g ! i) \<longrightarrow>
        ingrid (cols g) (rows g) d i \<and> \<not> flag (opp d) (maze_cells g ! nb (cols g) d i))"

definition tree_on :: "(nat \<times> nat) set \<Rightarrow> nat set \<Rightarrow> bool" where
  "tree_on E V \<longleftrightarrow>
     sym E \<and> E \<subseteq> V \<times> V \<and> (\<forall>v \<in> V. (0, v) \<in> E\<^sup>*) \<and>
     card (uedges E) + 1 = card V \<and> (\<forall>xs. \<not> cycle E xs)"

definition bt_inv :: "bt_state \<Rightarrow> bool" where
  "bt_inv st \<longleftrightarrow>
     (case st of (g, stack, current, visited_cells, k) \<Rightarrow>
        wf_grid g \<and> walls_ok g \<and>
        current \<in> vis g \<and> set stack \<subseteq> vis g \<and> 0 \<in> vis g \<and>
        visited_cells = card (vis g) \<and>
        (\<forall>i < n_cells g. \<forall>d. \<not> flag d (maze_cells g ! i) \<longrightarrow> i \<in> vis g) \<and>
        tree_on (links g) (vis g) \<and>
        (\<forall>i \<in> vis g. i \<notin> set stack \<and> i \<noteq> current \<longrightarrow>
           (\<forall>d. ingrid (cols g) (rows g) d i \<longrightarrow> nb (cols g) d i \<in> vis g)))"

text \<open>The states the loop of \<^verbatim>\<open>back_tracker\<close> passes through from \<open>s0\<close>.\<close>

inductive bt_reach :: "(nat \<Rightarrow> nat) \<Rightarrow> bt_state \<Rightarrow> bt_state \<Rightarrow> bool" for rnd s0 where
  entry: "bt_reach rnd s0 s0"
| iteration: "bt_reach rnd s0 st \<Longrightarrow> count_of st < n_cells (game_of st) \<Longrightarrow>
     bt_step rnd st = Inr st' \<Longrightarrow> bt_reach rnd s0 st'"

text \<open>The game after carving from cell \<open>i\<close> in direction \<open>d\<close> and visiting the neighbour.\<close>

definition carve :: "game \<Rightarrow> nat \<Rightarrow> dir \<Rightarrow> game" where
  "carve g i d =
     g\<lparr>maze_cells := (maze_cells g)
          [i := clear d (maze_cells g ! i),
           nb (cols g) d i := (clear (opp d) (maze_cells g ! nb (cols g) d i))\<lparr>visited := True\<rparr>]\<rparr>"

subsection \<open>Paths and the invariant of the search\<close>

text \<open>A walk: a non-empty list of cells, each joined to the next by an edge.\<close>

definition walk :: "(nat \<times> nat) set \<Rightarrow> nat list \<Rightarrow> bool" where
  "walk E xs \<longleftrightarrow> xs \<noteq> [] \<and> successively (\<lambda>a b. (a, b) \<in> E) xs"

definition path_from_to :: "(nat \<times> nat) set \<Rightarrow> nat \<Rightarrow> nat \<Rightarrow> nat list \<Rightarrow> bool" where
  "path_from_to E s t xs \<longleftrightarrow> walk E xs \<and> hd xs = s \<and> last xs = t"

text \<open>
  The invariant of the loop of \<^verbatim>\<open>compute_path\<close>, from start \<open>s\<close> to target \<open>t\<close>.
  Every visited cell but the start has a visited parent one edge before it, at a smaller
  depth \<open>d\<close>; a visited cell that has left the queue (and is not in \<open>F\<close>, the cell
  being expanded) is not the target and has all its neighbours visited.
\<close>

definition bfs_inv :: "game \<Rightarrow> nat \<Rightarrow> nat \<Rightarrow> nat set \<Rightarrow> bfs_state \<Rightarrow> bool" where
  "bfs_inv g s t F st \<longleftrightarrow>
     (case st of (queue, vf, par) \<Rightarrow>
        length vf = n_cells g \<and> length par = n_cells g \<and>
        s < n_cells g \<and> vf ! s \<and> par ! s = None \<and>
        (\<forall>v \<in> set queue. v < n_cells g \<and> vf ! v) \<and>
        (\<exists>d :: nat \<Rightarrow> nat. \<forall>v < n_cells g. vf ! v \<and> v \<noteq> s \<longrightarrow>
           (\<exists>u. par ! v = Some u \<and> u < n_cells g \<and> vf ! u \<and> passage g u v \<and> d u < d v)) \<and>
        (\<forall>v < n_cells g. vf ! v \<and> v \<notin> set queue \<and> v \<notin> F \<longrightarrow>
           v \<noteq> t \<and> (\<forall>w. passage g v w \<longrightarrow> vf ! w)))"

definition bfs_measure :: "bfs_state \<Rightarrow> nat" where
  "bfs_measure st =
     (case st of (queue, vf, par) \<Rightarrow> 2 * card {i. i < length vf \<and> \<not> vf ! i} + length queue)"

subsection \<open>Properties of a generated maze\<close>

definition symmetric_walls :: "game \<Rightarrow> bool" where
  "symmetric_walls g \<longleftrightarrow>
     (\<forall>i. i + cols g < n_cells g \<longrightarrow>
        south (maze_cells g ! i) = north (maze_cells g ! (i + cols g))) \<and>
     (\<forall>i < n_cells g. i mod cols g < cols g - 1 \<longrightarrow>
        east (maze_cells g ! i) = west (maze_cells g ! (i + 1)))"

definition boundary_closed :: "game \<Rightarrow> bool" where
  "boundary_closed g \<longleftrightarrow>
     (\<forall>i < n_cells g.
        (i div cols g = 0 \<longrightarrow> north (maze_cells g ! i)) \<and>
        (i div cols g = rows g - 1 \<longrightarrow> south (maze_cells g ! i)) \<and>
        (i mod cols g = 0 \<longrightarrow> west (maze_cells g ! i)) \<and>
        (i mod cols g = cols g - 1 \<longrightarrow> east (maze_cells g ! i)))"

subsection \<open>Level progression\<close>

text \<open>
  \<open>n\<close> level clears in a row: each time the player stands on the exit cell when the
  tick's check runs; \<open>clock\<close> gives the clock reading of each clear.
\<close>

fun clears ::
  "(nat \<Rightarrow> nat) \<Rightarrow> (nat \<Rightarrow> int) \<Rightarrow> nat \<Rightarrow> nat \<Rightarrow> game \<Rightarrow> (error + screen \<times> game \<times> nat) option" where
  "clears rnd clock 0 k g = Some (Inr (Playing, g, k))"
| "clears rnd clock (Suc n) k g =
     (case clears rnd clock n k g of
        Some (Inr (Playing, g', k')) \<Rightarrow>
          check_exit rnd k' (clock n) (g'\<lparr>current_cell := int (exit_cell g')\<rparr>)
      | r \<Rightarrow> r)"

subsection \<open>Example states\<close>

definition zeros :: "nat \<Rightarrow> nat" where
  "zeros i = 0"

definition blank :: "nat \<Rightarrow> nat \<Rightarrow> game" where
  "blank r c =
     \<lparr> cols = c, rows = r, n_cells = c * r, delay = 300, level = 0, elapsed_time = 0,
       start_time = 0, delay_time = 0, quit = False, game_over = False,
       current_cell = 0, agent_cell = 0, exit_cell = 0, player_next_move = WAITING,
       agent_path = Some [], maze_cells = [], offset = (0, 0), cell_size = 50 \<rparr>"

text \<open>A grid of \<open>r\<close> rows and \<open>c\<close> columns with every wall closed.\<close>

definition walled_grid :: "nat \<Rightarrow> nat \<Rightarrow> game" where
  "walled_grid r c = (blank r c)\<lparr>maze_cells := fresh_cells (blank r c)\<rparr>"

text \<open>One row of two cells with the wall between them open; the player is on cell 0.\<close>

definition corridor :: game where
  "corridor =
     (blank 1 2)\<lparr> exit_cell := 1, player_next_move := RIGHT, agent_path := Some [0, 1],
       maze_cells := [(Cell 0 0 260 (40, 170))\<lparr>visited := True, east := False\<rparr>,
                      (Cell 0 1 260 (40, 170))\<lparr>visited := True, west := False\<rparr>] \<rparr>"

section \<open>Graphs: adding a leaf to a tree\<close>

lemma mod_pred:
  assumes "0 < k" "k < (m::nat)"
  shows "(k + m - 1) mod m = k - 1"
proof -
  have eq: "k + m - 1 = (k - 1) + m" using assms by arith
  have "(k + m - 1) mod m = ((k - 1) + m) mod m" by (simp only: eq)
  also have "\<dots> = (k - 1) mod m" by (rule mod_add_self2)
  also have "\<dots> = k - 1" using assms by (intro mod_less) arith
  finally show ?thesis .
qed

lemma mod_pred0:
  assumes "0 < (m::nat)"
  shows "(0 + m - 1) mod m = m - 1"
proof -
  have "(m - 1) mod m = m - 1" using assms by (intro mod_less) arith
  then show ?thesis by simp
qed

lemma cycle_neighbours_differ:
  assumes "3 \<le> m" "k < m"
  shows "Suc k mod m \<noteq> (k + m - 1) mod m"
proof (cases "k = 0")
  case True
  have "Suc 0 mod m = Suc 0" using assms by (intro mod_less) arith
  then have "Suc k mod m = 1" using True by simp
  moreover have "(k + m - 1) mod m = m - 1" using True mod_pred0[of m] assms by simp
  ultimately show ?thesis using assms by arith
next
  case False
  then have p: "(k + m - 1) mod m = k - 1" using mod_pred[of k m] assms by simp
  show ?thesis
  proof (cases "Suc k < m")
    case True
    then have "Suc k mod m = Suc k" by (rule mod_less)
    with p show ?thesis by arith
  next
    case False
    with assms have "Suc k = m" by arith
    then have "Suc k mod m = 0" by simp
    with p \<open>Suc k = m\<close> assms show ?thesis by arith
  qed
qed

lemma cycle_pred:
  assumes "3 \<le> m" "k < m"
  shows "(k + m - 1) mod m < m" "Suc ((k + m - 1) mod m) mod m = k"
proof -
  have pos: "0 < m" using assms by arith
  show "(k + m - 1) mod m < m" using pos by (rule mod_less_divisor)
  show "Suc ((k + m - 1) mod m) mod m = k"
  proof (cases "k = 0")
    case True
    have "(k + m - 1) mod m = m - 1" using True mod_pred0[OF pos] by simp
    then have "Suc ((k + m - 1) mod m) = m" using pos by arith
    then show ?thesis using True by simp
  next
    case False
    then have "(k + m - 1) mod m = k - 1" using mod_pred[of k m] assms by simp
    then have "Suc ((k + m - 1) mod m) = k" using False by arith
    then show ?thesis using assms by simp
  qed
qed
lemma leaf_no_cycle:
  assumes sub: "E \<subseteq> V \<times> V" and w: "w \<notin> V" and u: "u \<in> V"
    and old: "\<forall>xs. \<not> cycle E xs"
  shows "\<not> cycle (insert (u, w) (insert (w, u) E)) xs"
proof
  let ?E = "insert (u, w) (insert (w, u) E)"
  let ?m = "length xs"
  assume c: "cycle ?E xs"
  then have m: "3 \<le> ?m" and d: "distinct xs"
    and e: "\<And>k. k < ?m \<Longrightarrow> (xs ! k, xs ! (Suc k mod ?m)) \<in> ?E"
    by (auto simp: cycle_def)
  from u w have uw: "u \<noteq> w" by auto
  show False
  proof (cases "w \<in> set xs")
    case True
    then obtain k where k: "k < ?m" "xs ! k = w" by (auto simp: in_set_conv_nth)
    let ?s = "Suc k mod ?m" and ?p = "(k + ?m - 1) mod ?m"
    have pos: "0 < ?m" using m by linarith
    have s: "?s < ?m" using pos by (rule mod_less_divisor)
    have p: "?p < ?m" "Suc ?p mod ?m = k" using cycle_pred[OF m k(1)] by auto
    from e[OF k(1)] k(2) have "(w, xs ! ?s) \<in> ?E" by simp
    with sub w uw have 1: "xs ! ?s = u" by auto
    from e[OF p(1)] p(2) k(2) have "(xs ! ?p, w) \<in> ?E" by simp
    with sub w uw have 2: "xs ! ?p = u" by auto
    from 1 2 have "xs ! ?s = xs ! ?p" by simp
    then have "?s = ?p" using nth_eq_iff_index_eq[OF d s p(1)] by blast
    with cycle_neighbours_differ[OF m k(1)] show False by simp
  next
    case False
    have "cycle E xs"
      unfolding cycle_def
    proof (intro conjI allI impI)
      fix k assume k: "k < ?m"
      have "0 < ?m" using m by linarith
      then have "Suc k mod ?m < ?m" by (rule mod_less_divisor)
      then have "xs ! (Suc k mod ?m) \<in> set xs" by (rule nth_mem)
      moreover have "xs ! k \<in> set xs" using k by (rule nth_mem)
      ultimately have "xs ! k \<noteq> w" "xs ! (Suc k mod ?m) \<noteq> w"
        using False by auto
      with e[OF k] show "(xs ! k, xs ! (Suc k mod ?m)) \<in> E" by auto
    qed (use m d in auto)
    with old show False by blast
  qed
qed

lemma uedges_leaf:
  assumes sub: "E \<subseteq> V \<times> V" and w: "w \<notin> V" and u: "u \<in> V" and fin: "finite V"
  shows "card (uedges (insert (u, w) (insert (w, u) E))) = Suc (card (uedges E))"
proof -
  from u w have uw: "u \<noteq> w" by auto
  have fE: "finite (uedges E)"
    by (rule finite_subset[of _ "V \<times> V"]) (use sub fin in \<open>auto simp: uedges_def\<close>)
  have eq: "uedges (insert (u, w) (insert (w, u) E)) = insert (min u w, max u w) (uedges E)"
    using uw by (auto simp: uedges_def min_def max_def)
  have "(min u w, max u w) \<notin> uedges E"
    using sub w by (auto simp: uedges_def min_def max_def)
  with fE show ?thesis by (simp add: eq)
qed

lemma tree_on_leaf:
  assumes t: "tree_on E V" and w: "w \<notin> V" and u: "u \<in> V" and fin: "finite V"
  shows "tree_on (insert (u, w) (insert (w, u) E)) (insert w V)"
proof -
  let ?E = "insert (u, w) (insert (w, u) E)"
  from t have s: "sym E" and sub: "E \<subseteq> V \<times> V" and r: "\<forall>v \<in> V. (0, v) \<in> E\<^sup>*"
    and c: "card (uedges E) + 1 = card V" and a: "\<forall>xs. \<not> cycle E xs"
    by (auto simp: tree_on_def)
  have 1: "sym ?E" using s by (auto simp: sym_def)
  have 2: "?E \<subseteq> insert w V \<times> insert w V" using sub u by auto
  have mono: "E\<^sup>* \<subseteq> ?E\<^sup>*" by (rule rtrancl_mono) auto
  have 3: "\<forall>v \<in> insert w V. (0, v) \<in> ?E\<^sup>*"
  proof
    fix v assume v: "v \<in> insert w V"
    show "(0, v) \<in> ?E\<^sup>*"
    proof (cases "v = w")
      case True
      from r u mono have "(0, u) \<in> ?E\<^sup>*" by auto
      moreover have "(u, w) \<in> ?E" by simp
      ultimately show ?thesis using True by (auto intro: rtrancl_into_rtrancl)
    next
      case False
      with v r mono show ?thesis by auto
    qed
  qed
  have 4: "card (uedges ?E) + 1 = card (insert w V)"
    using uedges_leaf[OF sub w u fin] c w fin by simp
  have 5: "\<forall>xs. \<not> cycle ?E xs" using leaf_no_cycle[OF sub w u a] by blast
  from 1 2 3 4 5 show ?thesis unfolding tree_on_def by blast
qed

lemma no_cycle_empty: "\<not> cycle {} xs"
proof
  assume "cycle {} xs"
  then have "3 \<le> length xs" and "\<forall>k < length xs. (xs ! k, xs ! (Suc k mod length xs)) \<in> {}"
    by (auto simp: cycle_def)
  then show False by (auto dest: spec[of _ 0])
qed

lemma tree_on_single: "tree_on {} {0}"
  unfolding tree_on_def
proof (intro conjI)
  show "card (uedges {}) + 1 = card {0::nat}" by (simp add: uedges_def)
  show "\<forall>xs. \<not> cycle {} xs" by (simp add: no_cycle_empty)
qed (auto simp: sym_def)

lemma tree_on_connected:
  assumes "tree_on E V" "i \<in> V" "j \<in> V"
  shows "(i, j) \<in> E\<^sup>*"
proof -
  from assms have s: "sym E" and i: "(0, i) \<in> E\<^sup>*" and j: "(0, j) \<in> E\<^sup>*"
    by (auto simp: tree_on_def)
  from s have "sym (E\<^sup>*)" by (rule sym_rtrancl)
  with i have "(i, 0) \<in> E\<^sup>*" by (auto dest: symD)
  then show ?thesis using j by (rule rtrancl_trans)
qed

section \<open>Index arithmetic of the grid\<close>

lemma div_less_rows: "0 < C \<Longrightarrow> i < C * R \<Longrightarrow> i div C < (R::nat)"
  by (simp add: less_mult_imp_div_less mult.commute)

lemma up_ge: "0 < i div C \<Longrightarrow> (C::nat) \<le> i"
  by (metis div_less not_le less_irrefl)

lemma nb_U:
  assumes "0 < (C::nat)" "i < C * R" "0 < i div C"
  shows "i - C < C * R" "(i - C) div C < R - 1" "i - C + C = i" "i - C \<noteq> i"
proof -
  have ge: "C \<le> i" using assms(3) by (rule up_ge)
  show "i - C < C * R" using assms by arith
  have "(i - C) div C = i div C - 1" using ge assms(1) by (simp add: le_div_geq)
  moreover have "i div C < R" using assms by (simp add: div_less_rows)
  ultimately show "(i - C) div C < R - 1" using assms(3) by arith
  show "i - C + C = i" using ge by simp
  show "i - C \<noteq> i" using ge assms(1) by arith
qed

lemma nb_D:
  assumes "0 < (C::nat)" "i < C * R" "i div C < R - 1"
  shows "i + C < C * R" "0 < (i + C) div C" "i + C - C = i" "i + C \<noteq> i"
proof -
  have "Suc (i div C) \<le> R - 1" using assms(3) by arith
  then have "C * Suc (i div C) \<le> C * (R - 1)" by (rule mult_le_mono2)
  moreover have "i < C * Suc (i div C)"
    using assms(1) by (metis dividend_less_times_div mult.commute mult_Suc_right add.commute)
  moreover have "C * (R - 1) + C = C * R"
    using assms(3) by (metis Suc_diff_1 add.commute less_nat_zero_code mult_Suc_right not_gr_zero zero_diff)
  ultimately show "i + C < C * R" by arith
  have "(i + C) div C = i div C + 1" using assms(1) by (intro div_add_self2) simp
  then show "0 < (i + C) div C" by simp
  show "i + C - C = i" by simp
  show "i + C \<noteq> i" using assms(1) by simp
qed

lemma nb_L:
  assumes "0 < (C::nat)" "i < C * R" "0 < i mod C"
  shows "i - 1 < C * R" "(i - 1) mod C < C - 1" "i - 1 + 1 = i" "i - 1 \<noteq> i"
proof -
  have pos: "0 < i" using assms(3) by (cases "i = 0") auto
  then obtain j where j: "i = Suc j" by (cases i) auto
  show "i - 1 < C * R" using assms by arith
  have "Suc j mod C = (if Suc (j mod C) = C then 0 else Suc (j mod C))" by (rule mod_Suc)
  with assms(3) j have "Suc (j mod C) = i mod C" by (simp split: if_splits)
  moreover have "i mod C < C" using assms(1) by simp
  ultimately show "(i - 1) mod C < C - 1" using j by simp
  show "i - 1 + 1 = i" using pos by simp
  show "i - 1 \<noteq> i" using pos by simp
qed

lemma nb_Rt:
  assumes "0 < (C::nat)" "i < C * R" "i mod C < C - 1"
  shows "i + 1 < C * R" "0 < (i + 1) mod C" "i + 1 - 1 = i" "i + 1 \<noteq> i"
proof -
  have m: "Suc i mod C = Suc (i mod C)" using assms(3) by (simp add: mod_Suc)
  show "0 < (i + 1) mod C" using m by simp
  have "Suc i \<noteq> C * R"
  proof
    assume "Suc i = C * R"
    then have "Suc i mod C = 0" by simp
    with m show False by simp
  qed
  with assms(2) show "i + 1 < C * R" by simp
qed simp_all

lemma ingrid_nb:
  assumes "0 < C" "i < C * R" "ingrid C R d i"
  shows "nb C d i < C * R" "ingrid C R (opp d) (nb C d i)" "nb C (opp d) (nb C d i) = i"
    "nb C d i \<noteq> i"
  using assms nb_U[of C i R] nb_D[of C i R] nb_L[of C i R] nb_Rt[of C i R]
  by (cases d; simp)+

lemma opp_opp [simp]: "opp (opp d) = d"
  by (cases d) simp_all

section \<open>The generator on a well-formed grid\<close>

lemmas dir_defs = UP_def DOWN_def LEFT_def RIGHT_def WAITING_def

lemma bind_e_simps [simp]: "bind_e (Inr x) f = f x" "bind_e (Inl e) f = Inl e"
  by (simp_all add: bind_e_def)

lemma item_in [simp]: "i < length xs \<Longrightarrow> item xs i = Inr (xs ! i)"
  by (simp add: item_def)

lemma modify_in [simp]: "i < length xs \<Longrightarrow> modify xs i f = Inr (xs[i := f (xs ! i)])"
  by (simp add: modify_def)

lemma assign_in [simp]: "i < length xs \<Longrightarrow> assign xs i v = Inr (xs[i := v])"
  by (simp add: assign_def)

lemma code_inject [simp]: "code d = code d' \<longleftrightarrow> d = d'"
  by (cases d; cases d') (simp_all add: dir_defs)

lemma flag_clear [simp]: "flag d' (clear d c) \<longleftrightarrow> flag d' c \<and> d' \<noteq> d"
  by (cases d; cases d') simp_all

lemma visited_clear [simp]: "visited (clear d c) = visited c"
  by (cases d) simp_all

lemma flag_visited_update [simp]: "flag d (c\<lparr>visited := b\<rparr>) = flag d c"
  by (cases d) simp_all

lemma clear_eq:
  "clear U = north_update (\<lambda>_. False)" "clear D = south_update (\<lambda>_. False)"
  "clear L = west_update (\<lambda>_. False)" "clear Rt = east_update (\<lambda>_. False)"
  by (rule ext, simp)+

lemma remove_adj_walls_code:
  "remove_adj_walls g i j (code d) = open_pair g i (clear d) j (clear (opp d))"
  by (cases d) (simp_all add: remove_adj_walls_def dir_defs clear_eq)

text \<open>The cell list after carving from \<open>i\<close> in direction \<open>d\<close> and visiting the neighbour.\<close>

lemma carve_result:
  assumes "i < length (maze_cells g)" "j < length (maze_cells g)" "i \<noteq> j"
  shows "bind_e (remove_adj_walls g i j (code d)) (\<lambda>g1. mark_visited g1 j) =
         Inr (g\<lparr>maze_cells := (maze_cells g)
                [i := clear d (maze_cells g ! i),
                 j := (clear (opp d) (maze_cells g ! j))\<lparr>visited := True\<rparr>]\<rparr>)"
  using assms by (simp add: remove_adj_walls_code open_pair_def mark_visited_def)

lemma unvisited_at_in [simp]:
  "i < length cs \<Longrightarrow> unvisited_at cs i = Inr (\<not> visited (cs ! i))"
  by (simp add: unvisited_at_def)

lemma get_unvisited_neighbors_set:
  assumes wf: "wf_grid g" and i: "i < n_cells g"
  shows "\<exists>ns. get_unvisited_neighbors g i = Inr ns \<and>
           set ns = {(nb (cols g) d i, code d) | d.
                       ingrid (cols g) (rows g) d i \<and> nb (cols g) d i \<notin> vis g}"
proof -
  let ?C = "cols g" and ?R = "rows g" and ?cs = "maze_cells g"
  from wf have C: "0 < ?C" and n: "n_cells g = ?C * ?R" and len: "length ?cs = ?C * ?R"
    by (auto simp: wf_grid_def)
  from i n have i': "i < ?C * ?R" by simp
  have in_grid: "\<And>d. ingrid ?C ?R d i \<Longrightarrow> nb ?C d i < length ?cs"
    using ingrid_nb(1)[OF C i'] len by simp
  have u: "0 < i div ?C \<Longrightarrow> i - ?C < length ?cs" using in_grid[of U] by simp
  have d: "i div ?C < ?R - 1 \<Longrightarrow> i + ?C < length ?cs" using in_grid[of D] by simp
  have l: "0 < i mod ?C \<Longrightarrow> i - 1 < length ?cs" using in_grid[of L] by simp
  have r: "i mod ?C < ?C - 1 \<Longrightarrow> i + 1 < length ?cs" using in_grid[of Rt] by simp
  let ?ns = "(if 0 < i div ?C \<and> \<not> visited (?cs ! (i - ?C)) then [(i - ?C, UP)] else [])
           @ (if i div ?C < ?R - 1 \<and> \<not> visited (?cs ! (i + ?C)) then [(i + ?C, DOWN)] else [])
           @ (if 0 < i mod ?C \<and> \<not> visited (?cs ! (i - 1)) then [(i - 1, LEFT)] else [])
           @ (if i mod ?C < ?C - 1 \<and> \<not> visited (?cs ! (i + 1)) then [(i + 1, RIGHT)] else [])"
  have eq: "get_unvisited_neighbors g i = Inr ?ns"
    using C u d l r by (simp add: get_unvisited_neighbors_def Let_def)
  have "set ?ns = {(nb ?C d i, code d) | d. ingrid ?C ?R d i \<and> nb ?C d i \<notin> vis g}"
    (is "_ = ?S")
  proof (intro set_eqI iffI)
    fix x assume "x \<in> set ?ns"
    then consider "x = (nb ?C U i, code U)" "ingrid ?C ?R U i" "\<not> visited (?cs ! nb ?C U i)"
      | "x = (nb ?C D i, code D)" "ingrid ?C ?R D i" "\<not> visited (?cs ! nb ?C D i)"
      | "x = (nb ?C L i, code L)" "ingrid ?C ?R L i" "\<not> visited (?cs ! nb ?C L i)"
      | "x = (nb ?C Rt i, code Rt)" "ingrid ?C ?R Rt i" "\<not> visited (?cs ! nb ?C Rt i)"
      by (auto split: if_splits)
    moreover have mem: "\<And>d. ingrid ?C ?R d i \<Longrightarrow> \<not> visited (?cs ! nb ?C d i) \<Longrightarrow>
        (nb ?C d i, code d) \<in> ?S"
      by (auto simp: vis_def)
    ultimately show "x \<in> ?S" by cases (simp_all only: mem)
  next
    fix x assume "x \<in> ?S"
    then obtain d where x: "x = (nb ?C d i, code d)" and g: "ingrid ?C ?R d i"
      and v: "nb ?C d i \<notin> vis g" by auto
    from in_grid[OF g] len n have "nb ?C d i < n_cells g" by simp
    with v have "\<not> visited (?cs ! nb ?C d i)" by (simp add: vis_def)
    with x g show "x \<in> set ?ns" by (cases d) auto
  qed
  with eq show ?thesis by blast
qed

lemma carve_fields [simp]:
  "cols (carve g i d) = cols g" "rows (carve g i d) = rows g" "n_cells (carve g i d) = n_cells g"
  "length (maze_cells (carve g i d)) = length (maze_cells g)"
  by (simp_all add: carve_def)

lemma wf_grid_carve [simp]: "wf_grid (carve g i d) = wf_grid g"
  by (simp add: wf_grid_def)

lemma wf_grid_nb:
  assumes "wf_grid g" "i < n_cells g" "ingrid (cols g) (rows g) d i"
  shows "nb (cols g) d i < n_cells g" "ingrid (cols g) (rows g) (opp d) (nb (cols g) d i)"
    "nb (cols g) (opp d) (nb (cols g) d i) = i" "nb (cols g) d i \<noteq> i"
  using assms ingrid_nb[of "cols g" i "rows g" d] by (simp_all add: wf_grid_def)

lemma carve_cell:
  assumes wf: "wf_grid g" and i: "i < n_cells g" and d: "ingrid (cols g) (rows g) d i"
    and x: "x < n_cells g"
  shows "maze_cells (carve g i d) ! x =
           (if x = nb (cols g) d i then (clear (opp d) (maze_cells g ! x))\<lparr>visited := True\<rparr>
            else if x = i then clear d (maze_cells g ! x) else maze_cells g ! x)"
proof -
  from wf have len: "length (maze_cells g) = n_cells g" by (simp add: wf_grid_def)
  from wf_grid_nb[OF wf i d] have j: "nb (cols g) d i < n_cells g" by simp
  show ?thesis using len i j x by (simp add: carve_def nth_list_update)
qed

lemma carve_flag:
  assumes wf: "wf_grid g" and i: "i < n_cells g" and d: "ingrid (cols g) (rows g) d i"
    and x: "x < n_cells g"
  shows "flag d' (maze_cells (carve g i d) ! x) \<longleftrightarrow>
           flag d' (maze_cells g ! x) \<and> \<not> (x = i \<and> d' = d) \<and>
           \<not> (x = nb (cols g) d i \<and> d' = opp d)"
  using wf_grid_nb(4)[OF wf i d] by (auto simp: carve_cell[OF wf i d x])

lemma carve_visited:
  assumes wf: "wf_grid g" and i: "i < n_cells g" and d: "ingrid (cols g) (rows g) d i"
    and x: "x < n_cells g"
  shows "visited (maze_cells (carve g i d) ! x) \<longleftrightarrow>
           visited (maze_cells g ! x) \<or> x = nb (cols g) d i"
  by (auto simp: carve_cell[OF wf i d x])

lemma vis_carve:
  assumes wf: "wf_grid g" and i: "i < n_cells g" and d: "ingrid (cols g) (rows g) d i"
  shows "vis (carve g i d) = insert (nb (cols g) d i) (vis g)"
  using wf_grid_nb(1)[OF wf i d] by (auto simp: vis_def carve_visited[OF wf i d])

lemma links_carve:
  assumes wf: "wf_grid g" and i: "i < n_cells g" and d: "ingrid (cols g) (rows g) d i"
  shows "links (carve g i d) =
           insert (i, nb (cols g) d i) (insert (nb (cols g) d i, i) (links g))"
proof -
  let ?j = "nb (cols g) d i"
  note nbs = wf_grid_nb[OF wf i d]
  have "links (carve g i d) =
          {(x, nb (cols g) d' x) | x d'. x < n_cells g \<and>
             (\<not> flag d' (maze_cells g ! x) \<or> (x = i \<and> d' = d) \<or> (x = ?j \<and> d' = opp d))}"
    unfolding links_def by (auto simp: carve_flag[OF wf i d])
  also have "\<dots> = links g \<union> {(i, ?j)} \<union> {(?j, nb (cols g) (opp d) ?j)}"
    unfolding links_def using i nbs(1) by auto
  also have "\<dots> = insert (i, ?j) (insert (?j, i) (links g))"
    using nbs(3) by auto
  finally show ?thesis .
qed

lemma sym_links:
  assumes wf: "wf_grid g" and ok: "walls_ok g"
  shows "sym (links g)"
proof (rule symI)
  fix a b assume "(a, b) \<in> links g"
  then obtain d where a: "a < n_cells g" and f: "\<not> flag d (maze_cells g ! a)"
    and b: "b = nb (cols g) d a" by (auto simp: links_def)
  from ok a f have g: "ingrid (cols g) (rows g) d a" and o: "\<not> flag (opp d) (maze_cells g ! b)"
    unfolding walls_ok_def b by blast+
  from wf_grid_nb[OF wf a g] b have "b < n_cells g" "nb (cols g) (opp d) b = a" by simp_all
  with o show "(b, a) \<in> links g" unfolding links_def by blast
qed

lemma passages_links:
  assumes wf: "wf_grid g" and ok: "walls_ok g"
  shows "passages g = links g"
proof -
  from wf have C: "0 < cols g" and len: "length (maze_cells g) = n_cells g"
    by (auto simp: wf_grid_def)
  have "passage g i j \<longleftrightarrow> (i, j) \<in> links g" for i j
  proof (cases "i < n_cells g")
    case False
    then show ?thesis by (auto simp: passage_def links_def)
  next
    case True
    have g: "\<not> flag d (maze_cells g ! i) \<Longrightarrow> ingrid (cols g) (rows g) d i" for d
      using ok True unfolding walls_ok_def by blast
    have "passage g i j \<longleftrightarrow> (\<exists>d. \<not> flag d (maze_cells g ! i) \<and> ingrid (cols g) (rows g) d i \<and> j = nb (cols g) d i)"
      (is "?l = ?r")
    proof
      assume ?l
      then consider "j = nb (cols g) U i" "\<not> flag U (maze_cells g ! i)" "ingrid (cols g) (rows g) U i"
        | "j = nb (cols g) D i" "\<not> flag D (maze_cells g ! i)" "ingrid (cols g) (rows g) D i"
        | "j = nb (cols g) L i" "\<not> flag L (maze_cells g ! i)" "ingrid (cols g) (rows g) L i"
        | "j = nb (cols g) Rt i" "\<not> flag Rt (maze_cells g ! i)" "ingrid (cols g) (rows g) Rt i"
        using C True len by (auto simp: passage_def get_neighbors_def Let_def split: if_splits)
      then show ?r by cases blast+
    next
      assume ?r
      then obtain d where "\<not> flag d (maze_cells g ! i)" "ingrid (cols g) (rows g) d i"
        "j = nb (cols g) d i" by blast
      then show ?l using C True len
        by (cases d) (auto simp: passage_def get_neighbors_def Let_def)
    qed
    also have "\<dots> \<longleftrightarrow> (i, j) \<in> links g"
      using True g by (auto simp: links_def)
    finally show ?thesis .
  qed
  then show ?thesis by (auto simp: passages_def)
qed

lemma finite_vis [simp]: "finite (vis g)"
  by (simp add: vis_def)

lemma vis_less: "i \<in> vis g \<Longrightarrow> i < n_cells g"
  by (simp add: vis_def)

lemma card_vis_le: "card (vis g) \<le> n_cells g"
proof -
  have "vis g \<subseteq> {..<n_cells g}" by (auto simp: vis_def)
  then have "card (vis g) \<le> card {..<n_cells g}" by (intro card_mono) auto
  then show ?thesis by simp
qed

lemma vis_full: "card (vis g) = n_cells g \<Longrightarrow> vis g = {..<n_cells g}"
proof -
  assume c: "card (vis g) = n_cells g"
  have "vis g \<subseteq> {..<n_cells g}" by (auto simp: vis_def)
  moreover have "card {..<n_cells g} \<le> card (vis g)" using c by simp
  ultimately show ?thesis by (intro card_seteq) auto
qed

text \<open>The grid is connected: a set of cells that holds cell 0 and is closed under grid
  neighbours holds every cell.\<close>

lemma grid_closed_all:
  assumes C: "0 < C" and z: "0 \<in> S"
    and cl: "\<And>x d. x \<in> S \<Longrightarrow> x < C * R \<Longrightarrow> ingrid C R d x \<Longrightarrow> nb C d x \<in> S"
  shows "i < C * R \<Longrightarrow> i \<in> S"
proof (induction i rule: less_induct)
  case (less i)
  show ?case
  proof (cases "i = 0")
    case True
    with z show ?thesis by simp
  next
    case False
    show ?thesis
    proof (cases "0 < i mod C")
      case True
      from nb_L[OF C less.prems True] have
        1: "i - 1 < C * R" and 2: "(i - 1) mod C < C - 1" and 3: "i - 1 + 1 = i"
        by auto
      from False have "i - 1 < i" by simp
      from less.IH[OF this 1] have "i - 1 \<in> S" .
      from cl[OF this 1, of Rt] 2 3 show ?thesis by simp
    next
      case m: False
      then have "C dvd i" by auto
      with False C have ge: "C \<le> i" by (auto dest: dvd_imp_le)
      then have d: "0 < i div C" using C by (simp add: div_greater_zero_iff)
      from nb_U[OF C less.prems d] have
        1: "i - C < C * R" and 2: "(i - C) div C < R - 1" and 3: "i - C + C = i"
        by auto
      from False C ge have "i - C < i" by simp
      from less.IH[OF this 1] have "i - C \<in> S" .
      from cl[OF this 1, of D] 2 3 show ?thesis by simp
    qed
  qed
qed

lemma closed_vis_full:
  assumes wf: "wf_grid g" and z: "0 \<in> vis g"
    and cl: "\<forall>x \<in> vis g. \<forall>d. ingrid (cols g) (rows g) d x \<longrightarrow> nb (cols g) d x \<in> vis g"
  shows "card (vis g) = n_cells g"
proof -
  from wf have C: "0 < cols g" and n: "n_cells g = cols g * rows g" by (auto simp: wf_grid_def)
  have "i \<in> vis g" if "i < cols g * rows g" for i
    using C z _ that by (rule grid_closed_all) (use cl in blast)
  then have "{..<n_cells g} \<subseteq> vis g" using n by auto
  then have "card {..<n_cells g} \<le> card (vis g)" by (intro card_mono) auto
  with card_vis_le[of g] show ?thesis by simp
qed

lemma carve_steps:
  assumes wf: "wf_grid g" and i: "i < n_cells g" and d: "ingrid (cols g) (rows g) d i"
  shows "\<exists>g1. remove_adj_walls g i (nb (cols g) d i) (code d) = Inr g1 \<and>
              mark_visited g1 (nb (cols g) d i) = Inr (carve g i d)"
proof -
  from wf have len: "length (maze_cells g) = n_cells g" by (simp add: wf_grid_def)
  from wf_grid_nb[OF wf i d] have j: "nb (cols g) d i < n_cells g" "nb (cols g) d i \<noteq> i"
    by simp_all
  show ?thesis using len i j
    by (simp add: remove_adj_walls_code open_pair_def mark_visited_def carve_def)
qed

lemma bt_step_carve:
  assumes wf: "wf_grid g" and cur: "current < n_cells g"
    and ns: "get_unvisited_neighbors g current = Inr ns" "ns \<noteq> []"
  shows "\<exists>d. ingrid (cols g) (rows g) d current \<and> nb (cols g) d current \<notin> vis g \<and>
           bt_step rnd (g, stack, current, vc, k) =
             Inr (carve g current d, stack @ [current], nb (cols g) d current, vc + 1, k + 1)"
proof -
  let ?p = "ns ! (rnd k mod length ns)"
  from ns(2) have "?p \<in> set ns" by simp
  moreover from get_unvisited_neighbors_set[OF wf cur] ns(1)
  have "set ns = {(nb (cols g) d current, code d) | d.
                    ingrid (cols g) (rows g) d current \<and> nb (cols g) d current \<notin> vis g}"
    by simp
  ultimately obtain d where p: "?p = (nb (cols g) d current, code d)"
    and d: "ingrid (cols g) (rows g) d current" and v: "nb (cols g) d current \<notin> vis g"
    by auto
  from carve_steps[OF wf cur d] obtain g1 where
    "remove_adj_walls g current (nb (cols g) d current) (code d) = Inr g1"
    "mark_visited g1 (nb (cols g) d current) = Inr (carve g current d)" by blast
  with ns p have "bt_step rnd (g, stack, current, vc, k) =
      Inr (carve g current d, stack @ [current], nb (cols g) d current, vc + 1, k + 1)"
    by (simp add: bt_step_def choice_def)
  with d v show ?thesis by blast
qed

lemma bt_inv_carve:
  assumes inv: "bt_inv (g, stack, current, vc, k)"
    and d: "ingrid (cols g) (rows g) d current" and v: "nb (cols g) d current \<notin> vis g"
  shows "bt_inv (carve g current d, stack @ [current], nb (cols g) d current, vc + 1, k')"
proof -
  let ?g = "carve g current d" and ?j = "nb (cols g) d current"
  from inv have wf: "wf_grid g" and ok: "walls_ok g" and cur: "current \<in> vis g"
    and st: "set stack \<subseteq> vis g" and z: "0 \<in> vis g" and vc: "vc = card (vis g)"
    and op: "\<forall>i < n_cells g. \<forall>d. \<not> flag d (maze_cells g ! i) \<longrightarrow> i \<in> vis g"
    and tr: "tree_on (links g) (vis g)"
    and cl: "\<forall>i \<in> vis g. i \<notin> set stack \<and> i \<noteq> current \<longrightarrow>
               (\<forall>d. ingrid (cols g) (rows g) d i \<longrightarrow> nb (cols g) d i \<in> vis g)"
    by (auto simp: bt_inv_def)
  from cur have c: "current < n_cells g" by (rule vis_less)
  note nbs = wf_grid_nb[OF wf c d]
  note fl = carve_flag[OF wf c d]
  have vg: "vis ?g = insert ?j (vis g)" by (rule vis_carve[OF wf c d])
  have 1: "wf_grid ?g" using wf by simp
  have 2: "walls_ok ?g"
    unfolding walls_ok_def
  proof (intro allI impI)
    fix x d' assume x: "x < n_cells ?g" and f: "\<not> flag d' (maze_cells ?g ! x)"
    from x have x': "x < n_cells g" by simp
    from f fl[OF x'] consider "\<not> flag d' (maze_cells g ! x)" | "x = current" "d' = d"
      | "x = ?j" "d' = opp d" by blast
    then show "ingrid (cols ?g) (rows ?g) d' x \<and>
               \<not> flag (opp d') (maze_cells ?g ! nb (cols ?g) d' x)"
    proof cases
      case 1
      with ok x' have g: "ingrid (cols g) (rows g) d' x"
        and o: "\<not> flag (opp d') (maze_cells g ! nb (cols g) d' x)"
        unfolding walls_ok_def by blast+
      from wf_grid_nb(1)[OF wf x' g] have "nb (cols g) d' x < n_cells g" .
      from fl[OF this] o have "\<not> flag (opp d') (maze_cells ?g ! nb (cols g) d' x)" by blast
      with g show ?thesis by simp
    next
      case 2
      from fl[OF nbs(1)] have "\<not> flag (opp d) (maze_cells ?g ! ?j)" by blast
      with 2 d show ?thesis by simp
    next
      case 3
      from fl[OF c] have "\<not> flag d (maze_cells ?g ! current)" by blast
      with 3 nbs(2,3) show ?thesis by simp
    qed
  qed
  have 3: "?j \<in> vis ?g" "set (stack @ [current]) \<subseteq> vis ?g" "0 \<in> vis ?g"
    using vg cur st z by auto
  have 4: "vc + 1 = card (vis ?g)" using vg v vc by simp
  have 5: "\<forall>i < n_cells ?g. \<forall>d. \<not> flag d (maze_cells ?g ! i) \<longrightarrow> i \<in> vis ?g"
  proof (intro allI impI)
    fix x d' assume x: "x < n_cells ?g" and f: "\<not> flag d' (maze_cells ?g ! x)"
    from x have x': "x < n_cells g" by simp
    from f fl[OF x'] consider "\<not> flag d' (maze_cells g ! x)" | "x = current" | "x = ?j"
      by blast
    then show "x \<in> vis ?g" using op x' cur vg by cases auto
  qed
  have sub: "links g \<subseteq> vis g \<times> vis g" using tr by (simp add: tree_on_def)
  have 6: "tree_on (links ?g) (vis ?g)"
    unfolding links_carve[OF wf c d] vg
    using tr v cur by (rule tree_on_leaf) simp
  have 7: "\<forall>i \<in> vis ?g. i \<notin> set (stack @ [current]) \<and> i \<noteq> ?j \<longrightarrow>
             (\<forall>d. ingrid (cols ?g) (rows ?g) d i \<longrightarrow> nb (cols ?g) d i \<in> vis ?g)"
    using cl vg by auto
  from 1 2 3 4 5 6 7 show ?thesis unfolding bt_inv_def by simp
qed

lemma bt_inv_pop:
  assumes inv: "bt_inv (g, stack, current, vc, k)" and ne: "stack \<noteq> []"
    and no: "\<forall>d. ingrid (cols g) (rows g) d current \<longrightarrow> nb (cols g) d current \<in> vis g"
  shows "bt_inv (g, butlast stack, last stack, vc, k)"
proof -
  from ne have s: "set stack = insert (last stack) (set (butlast stack))"
    by (metis append_butlast_last_id list.set(1,2) set_append Un_insert_right sup_bot.right_neutral)
  from inv have st: "set stack \<subseteq> vis g"
    and cl: "\<forall>i \<in> vis g. i \<notin> set stack \<and> i \<noteq> current \<longrightarrow>
               (\<forall>d. ingrid (cols g) (rows g) d i \<longrightarrow> nb (cols g) d i \<in> vis g)"
    by (auto simp: bt_inv_def)
  have 1: "last stack \<in> vis g" "set (butlast stack) \<subseteq> vis g" using st s by auto
  have 2: "\<forall>i \<in> vis g. i \<notin> set (butlast stack) \<and> i \<noteq> last stack \<longrightarrow>
             (\<forall>d. ingrid (cols g) (rows g) d i \<longrightarrow> nb (cols g) d i \<in> vis g)"
  proof (intro ballI impI)
    fix i assume i: "i \<in> vis g" "i \<notin> set (butlast stack) \<and> i \<noteq> last stack"
    then have "i \<notin> set stack" using s by auto
    with i cl no show "\<forall>d. ingrid (cols g) (rows g) d i \<longrightarrow> nb (cols g) d i \<in> vis g"
      by (cases "i = current") auto
  qed
  from inv 1 2 show ?thesis unfolding bt_inv_def by simp
qed

lemma unvisited_nil:
  assumes wf: "wf_grid g" and cur: "current < n_cells g"
    and ns: "get_unvisited_neighbors g current = Inr []"
  shows "\<forall>d. ingrid (cols g) (rows g) d current \<longrightarrow> nb (cols g) d current \<in> vis g"
  using get_unvisited_neighbors_set[OF wf cur] ns by auto

lemma bt_inv_not_stuck:
  assumes inv: "bt_inv (g, [], current, vc, k)"
    and no: "\<forall>d. ingrid (cols g) (rows g) d current \<longrightarrow> nb (cols g) d current \<in> vis g"
  shows "vc = n_cells g"
proof -
  from inv have wf: "wf_grid g" and z: "0 \<in> vis g" and vc: "vc = card (vis g)"
    and cl: "\<forall>i \<in> vis g. i \<noteq> current \<longrightarrow>
               (\<forall>d. ingrid (cols g) (rows g) d i \<longrightarrow> nb (cols g) d i \<in> vis g)"
    by (auto simp: bt_inv_def)
  have "\<forall>x \<in> vis g. \<forall>d. ingrid (cols g) (rows g) d x \<longrightarrow> nb (cols g) d x \<in> vis g"
  proof (intro ballI allI impI)
    fix x d assume "x \<in> vis g" "ingrid (cols g) (rows g) d x"
    then show "nb (cols g) d x \<in> vis g" using cl no by (cases "x = current") auto
  qed
  from closed_vis_full[OF wf z this] vc show ?thesis by simp
qed

lemma bt_step_cases:
  assumes inv: "bt_inv (g, stack, current, vc, k)" and lt: "vc < n_cells g"
  shows "(\<exists>d. ingrid (cols g) (rows g) d current \<and> nb (cols g) d current \<notin> vis g \<and>
            bt_step rnd (g, stack, current, vc, k) =
              Inr (carve g current d, stack @ [current], nb (cols g) d current, vc + 1, k + 1)) \<or>
         (stack \<noteq> [] \<and> get_unvisited_neighbors g current = Inr [] \<and>
            bt_step rnd (g, stack, current, vc, k) =
              Inr (g, butlast stack, last stack, vc, k))"
proof -
  from inv have wf: "wf_grid g" and cur: "current \<in> vis g" by (auto simp: bt_inv_def)
  from cur have c: "current < n_cells g" by (rule vis_less)
  from get_unvisited_neighbors_set[OF wf c] obtain ns where
    ns: "get_unvisited_neighbors g current = Inr ns" by blast
  show ?thesis
  proof (cases "ns = []")
    case False
    from bt_step_carve[OF wf c ns False] show ?thesis by blast
  next
    case True
    with ns have nil: "get_unvisited_neighbors g current = Inr []" by simp
    note no = unvisited_nil[OF wf c nil]
    have "stack \<noteq> []"
    proof
      assume "stack = []"
      with inv no have "vc = n_cells g" by (auto dest: bt_inv_not_stuck)
      with lt show False by simp
    qed
    moreover from this nil have "bt_step rnd (g, stack, current, vc, k) =
        Inr (g, butlast stack, last stack, vc, k)"
      by (simp add: bt_step_def)
    ultimately show ?thesis using nil by blast
  qed
qed

lemma carve_same: "carve g i d = g\<lparr>maze_cells := maze_cells (carve g i d)\<rparr>"
  by (simp add: carve_def)

lemma back_tracker_loop_total:
  assumes "bt_inv st"
  shows "\<exists>g' stack' current' k'.
           back_tracker_loop rnd st = Some (Inr (g', stack', current', n_cells g', k')) \<and>
           bt_inv (g', stack', current', n_cells g', k') \<and>
           g' = (fst st)\<lparr>maze_cells := maze_cells g'\<rparr>"
  using assms
proof (induction st rule: wf_induct_rule[OF wf_measures[of
        "[\<lambda>(g, stack, current, vc, k). n_cells g - vc,
          \<lambda>(g, stack, current, vc, k). length stack]"]])
  case (1 st)
  obtain g stack current vc k where st: "st = (g, stack, current, vc, k)"
    by (cases st) auto
  from "1.prems" st have inv: "bt_inv (g, stack, current, vc, k)" by simp
  then have le: "vc \<le> n_cells g" using card_vis_le[of g] by (simp add: bt_inv_def)
  show ?case
  proof (cases "vc < n_cells g")
    case False
    with le have "vc = n_cells g" by simp
    with inv st show ?thesis
      by (subst back_tracker_loop.simps) simp
  next
    case True
    from bt_step_cases[OF inv True, of rnd] consider
      d where "ingrid (cols g) (rows g) d current" "nb (cols g) d current \<notin> vis g"
        "bt_step rnd (g, stack, current, vc, k) =
           Inr (carve g current d, stack @ [current], nb (cols g) d current, vc + 1, k + 1)"
      | "stack \<noteq> []" "get_unvisited_neighbors g current = Inr []"
        "bt_step rnd (g, stack, current, vc, k) = Inr (g, butlast stack, last stack, vc, k)"
      by blast
    then show ?thesis
    proof cases
      case 1
      let ?st' = "(carve g current d, stack @ [current], nb (cols g) d current, vc + 1, k + 1)"
      have inv': "bt_inv ?st'" using inv 1(1,2) by (rule bt_inv_carve)
      have dec: "(?st', st) \<in> measures
        [\<lambda>(g, stack, current, vc, k). n_cells g - vc, \<lambda>(g, stack, current, vc, k). length stack]"
        using True st by simp
      from "1.IH"[OF dec inv'] obtain g' stack' current' k' where
        r: "back_tracker_loop rnd ?st' = Some (Inr (g', stack', current', n_cells g', k'))"
        "bt_inv (g', stack', current', n_cells g', k')"
        "g' = (carve g current d)\<lparr>maze_cells := maze_cells g'\<rparr>" by auto
      from r(3) have "g' = g\<lparr>maze_cells := maze_cells g'\<rparr>"
        by (subst (asm) carve_def) simp
      moreover have "back_tracker_loop rnd st = back_tracker_loop rnd ?st'"
        using True st 1(3) by (subst back_tracker_loop.simps) simp
      ultimately show ?thesis using r st by auto
    next
      case 2
      let ?st' = "(g, butlast stack, last stack, vc, k)"
      from inv have wf: "wf_grid g" and cur: "current \<in> vis g" by (auto simp: bt_inv_def)
      have inv': "bt_inv ?st'"
        using inv 2(1) unvisited_nil[OF wf vis_less[OF cur] 2(2)] by (rule bt_inv_pop)
      have dec: "(?st', st) \<in> measures
        [\<lambda>(g, stack, current, vc, k). n_cells g - vc, \<lambda>(g, stack, current, vc, k). length stack]"
        using 2(1) st by simp
      from "1.IH"[OF dec inv'] obtain g' stack' current' k' where
        r: "back_tracker_loop rnd ?st' = Some (Inr (g', stack', current', n_cells g', k'))"
        "bt_inv (g', stack', current', n_cells g', k')"
        "g' = g\<lparr>maze_cells := maze_cells g'\<rparr>" by auto
      moreover have "back_tracker_loop rnd st = back_tracker_loop rnd ?st'"
        using True st 2(3) by (subst back_tracker_loop.simps) simp
      ultimately show ?thesis using st by auto
    qed
  qed
qed

lemma walled_flag:
  assumes "walled g" "i < length (maze_cells g)"
  shows "flag d (maze_cells g ! i)" "\<not> visited (maze_cells g ! i)"
proof -
  from assms have "maze_cells g ! i \<in> set (maze_cells g)" by simp
  with assms(1) show "flag d (maze_cells g ! i)" "\<not> visited (maze_cells g ! i)"
    unfolding walled_def by (cases d; auto)+
qed

lemma bt_inv_entry:
  assumes wf: "wf_grid g" and w: "walled g"
  shows "\<exists>g0. mark_visited g 0 = Inr g0 \<and> bt_inv (g0, [], 0, 1, k) \<and>
           g0 = g\<lparr>maze_cells := maze_cells g0\<rparr>"
proof -
  let ?cs = "maze_cells g"
  let ?g0 = "g\<lparr>maze_cells := ?cs[0 := (?cs ! 0)\<lparr>visited := True\<rparr>]\<rparr>"
  from wf have len: "length ?cs = n_cells g" and pos: "0 < n_cells g"
    by (auto simp: wf_grid_def)
  have m: "mark_visited g 0 = Inr ?g0" using len pos by (simp add: mark_visited_def)
  have fl: "flag d (maze_cells ?g0 ! i)" if "i < n_cells g" for i d
    using walled_flag(1)[OF w, of i d] that len by (cases "i = 0") simp_all
  have v: "vis ?g0 = {0}"
    using walled_flag(2)[OF w] len pos by (auto simp: vis_def nth_list_update)
  have l: "links ?g0 = {}" using fl by (auto simp: links_def)
  have 1: "wf_grid ?g0" using wf by (simp add: wf_grid_def)
  have 2: "walls_ok ?g0" using fl by (simp add: walls_ok_def)
  have 3: "\<forall>i < n_cells ?g0. \<forall>d. \<not> flag d (maze_cells ?g0 ! i) \<longrightarrow> i \<in> vis ?g0"
    using fl by simp
  have 4: "tree_on (links ?g0) (vis ?g0)" unfolding l v by (rule tree_on_single)
  have "bt_inv (?g0, [], 0, 1, k)"
    unfolding bt_inv_def using 1 2 3 4 v by simp
  with m show ?thesis by (intro exI[of _ ?g0]) simp
qed

lemma back_tracker_total:
  assumes wf: "wf_grid g" and w: "walled g"
  shows "\<exists>g' stack' current' k'.
           back_tracker rnd k g = Some (Inr (g', k')) \<and>
           bt_inv (g', stack', current', n_cells g', k') \<and>
           g' = g\<lparr>maze_cells := maze_cells g'\<rparr>"
proof -
  from bt_inv_entry[OF wf w, of k] obtain g0 where
    g0: "mark_visited g 0 = Inr g0" "bt_inv (g0, [], 0, 1, k)" "g0 = g\<lparr>maze_cells := maze_cells g0\<rparr>"
    by blast
  then have e: "bt_entry g k = Inr (g0, [], 0, 1, k)" by (simp add: bt_entry_def)
  from back_tracker_loop_total[OF g0(2), of rnd] obtain g' stack' current' k' where
    r: "back_tracker_loop rnd (g0, [], 0, 1, k) = Some (Inr (g', stack', current', n_cells g', k'))"
    "bt_inv (g', stack', current', n_cells g', k')"
    "g' = g0\<lparr>maze_cells := maze_cells g'\<rparr>" by auto
  from r(3) g0(3) have "g' = g\<lparr>maze_cells := maze_cells g'\<rparr>"
    by (metis game.surjective game.update_convs(16))
  moreover have "back_tracker rnd k g = Some (Inr (g', k'))"
    using e r(1) by (simp add: back_tracker_def)
  ultimately show ?thesis using r(2) by blast
qed

lemma bt_inv_spanning_tree:
  assumes inv: "bt_inv (g, stack, current, n_cells g, k)"
  shows "spanning_tree g"
proof -
  from inv have wf: "wf_grid g" and ok: "walls_ok g" and c: "card (vis g) = n_cells g"
    and tr: "tree_on (links g) (vis g)" by (auto simp: bt_inv_def)
  have p: "passages g = links g" using wf ok by (rule passages_links)
  have v: "vis g = {..<n_cells g}" using c by (rule vis_full)
  from tr have "sym (links g)" "card (uedges (links g)) + 1 = card (vis g)"
    "\<forall>xs. \<not> cycle (links g) xs" by (auto simp: tree_on_def)
  moreover have "(i, j) \<in> (links g)\<^sup>*" if "i < n_cells g" "j < n_cells g" for i j
    using tr _ _ by (rule tree_on_connected) (use that v in auto)
  ultimately show ?thesis unfolding spanning_tree_def p using c by auto
qed

lemma bt_reach_inv:
  assumes "bt_reach rnd s0 st" "bt_inv s0"
  shows "bt_inv st"
  using assms
proof (induction rule: bt_reach.induct)
  case entry
  then show ?case by simp
next
  case (iteration st st')
  obtain g stack current vc k where st: "st = (g, stack, current, vc, k)"
    by (cases st) auto
  from iteration st have inv: "bt_inv (g, stack, current, vc, k)" and lt: "vc < n_cells g"
    by simp_all
  from inv have wf: "wf_grid g" and cur: "current \<in> vis g" by (auto simp: bt_inv_def)
  from bt_step_cases[OF inv lt, of rnd] iteration(3) st consider
    d where "ingrid (cols g) (rows g) d current" "nb (cols g) d current \<notin> vis g"
      "st' = (carve g current d, stack @ [current], nb (cols g) d current, vc + 1, k + 1)"
    | "stack \<noteq> []" "get_unvisited_neighbors g current = Inr []"
      "st' = (g, butlast stack, last stack, vc, k)"
    by auto
  then show ?case
  proof cases
    case 1
    show ?thesis unfolding 1(3) using inv 1(1,2) by (rule bt_inv_carve)
  next
    case 2
    show ?thesis unfolding 2(3)
      using inv 2(1) unvisited_nil[OF wf vis_less[OF cur] 2(2)] by (rule bt_inv_pop)
  qed
qed

lemma length_fresh_cells: "length (fresh_cells g) = cols g * rows g"
proof -
  have "length (concat (map (\<lambda>r. map (f r) [0..<C]) [0..<R])) = C * R" for f :: "nat \<Rightarrow> nat \<Rightarrow> cell" and C R
    by (induction R) simp_all
  then show ?thesis by (simp add: fresh_cells_def)
qed

lemma walled_fresh: "walled (g\<lparr>maze_cells := fresh_cells h\<rparr>)"
  by (auto simp: walled_def fresh_cells_def Cell_def)

lemma generate_maze_total:
  assumes "0 < cols g" "0 < rows g" "n_cells g = cols g * rows g"
  shows "\<exists>g' stack' current' k'.
           generate_maze rnd k g = Some (Inr (g', k')) \<and>
           bt_inv (g', stack', current', n_cells g', k') \<and>
           g' = g\<lparr>cell_size := cell_size g', offset := offset g', maze_cells := maze_cells g'\<rparr>"
proof -
  from assms(1,2) obtain g1 where c: "calculate_cell_size_and_offsets g = Inr g1"
    and g1: "g1 = g\<lparr>cell_size := cell_size g1, offset := offset g1\<rparr>"
    by (simp add: calculate_cell_size_and_offsets_def Let_def)
  let ?g2 = "g1\<lparr>maze_cells := fresh_cells g1\<rparr>"
  have f: "cols g1 = cols g" "rows g1 = rows g" "n_cells g1 = n_cells g"
    by (subst g1, simp)+
  have wf: "wf_grid ?g2" using assms f by (simp add: wf_grid_def length_fresh_cells)
  have w: "walled ?g2" by (rule walled_fresh)
  from back_tracker_total[OF wf w, of rnd k] obtain g' stack' current' k' where
    r: "back_tracker rnd k ?g2 = Some (Inr (g', k'))"
      "bt_inv (g', stack', current', n_cells g', k')"
      "g' = ?g2\<lparr>maze_cells := maze_cells g'\<rparr>" by blast
  from r(3) have "g' = g1\<lparr>maze_cells := maze_cells g'\<rparr>" by simp
  then have "g' = g\<lparr>cell_size := cell_size g1, offset := offset g1, maze_cells := maze_cells g'\<rparr>"
    by (subst (asm) g1) simp
  then have "g' = g\<lparr>cell_size := cell_size g', offset := offset g', maze_cells := maze_cells g'\<rparr>"
    by (metis (no_types, lifting) game.select_convs(17,18) game.surjective game.update_convs(16,17,18))
  moreover have "generate_maze rnd k g = Some (Inr (g', k'))"
    using c r(1) by (simp add: generate_maze_def)
  ultimately show ?thesis using r(2) by blast
qed

lemma walls_ok_symmetric:
  assumes wf: "wf_grid g" and ok: "walls_ok g"
  shows "symmetric_walls g"
  unfolding symmetric_walls_def
proof (intro conjI allI impI)
  from wf have C: "0 < cols g" and n: "n_cells g = cols g * rows g" by (auto simp: wf_grid_def)
  fix i assume a: "i + cols g < n_cells g"
  then have i: "i < n_cells g" by simp
  have 1: "\<not> south (maze_cells g ! i) \<Longrightarrow> \<not> north (maze_cells g ! (i + cols g))"
    using ok i unfolding walls_ok_def by (metis flag.simps(1,2) nb.simps(2) opp.simps(2))
  have 2: "\<not> north (maze_cells g ! (i + cols g)) \<Longrightarrow> \<not> south (maze_cells g ! i)"
    using ok a unfolding walls_ok_def
    by (metis flag.simps(1,2) nb.simps(1) opp.simps(1) add_diff_cancel_right')
  from 1 2 show "south (maze_cells g ! i) = north (maze_cells g ! (i + cols g))" by blast
next
  from wf have C: "0 < cols g" and n: "n_cells g = cols g * rows g" by (auto simp: wf_grid_def)
  fix i assume i: "i < n_cells g" and m: "i mod cols g < cols g - 1"
  from i n have i': "i < cols g * rows g" by simp
  from nb_Rt(1)[OF C i' m] n have a: "i + 1 < n_cells g" by simp
  have 1: "\<not> east (maze_cells g ! i) \<Longrightarrow> \<not> west (maze_cells g ! (i + 1))"
    using ok i unfolding walls_ok_def by (metis flag.simps(3,4) nb.simps(4) opp.simps(4))
  have 2: "\<not> west (maze_cells g ! (i + 1)) \<Longrightarrow> \<not> east (maze_cells g ! i)"
    using ok a unfolding walls_ok_def
    by (metis flag.simps(3,4) nb.simps(3) opp.simps(3) add_diff_cancel_right')
  from 1 2 show "east (maze_cells g ! i) = west (maze_cells g ! (i + 1))" by blast
qed

lemma walls_ok_boundary:
  assumes wf: "wf_grid g" and ok: "walls_ok g"
  shows "boundary_closed g"
  unfolding boundary_closed_def
proof (intro allI impI conjI)
  fix i assume i: "i < n_cells g"
  have g: "\<not> flag d (maze_cells g ! i) \<Longrightarrow> ingrid (cols g) (rows g) d i" for d
    using ok i unfolding walls_ok_def by blast
  show "i div cols g = 0 \<Longrightarrow> north (maze_cells g ! i)" using g[of U] by auto
  show "i div cols g = rows g - 1 \<Longrightarrow> south (maze_cells g ! i)" using g[of D] by auto
  show "i mod cols g = 0 \<Longrightarrow> west (maze_cells g ! i)" using g[of L] by auto
  show "i mod cols g = cols g - 1 \<Longrightarrow> east (maze_cells g ! i)" using g[of Rt] by auto
qed

lemma div_pred_same:
  assumes "0 < (i::nat) mod C"
  shows "(i - 1) div C = i div C"
proof -
  from assms obtain j where j: "i = Suc j" by (cases i) auto
  have "Suc j div C = (if Suc j mod C = 0 then Suc (j div C) else j div C)" by (rule div_Suc)
  with assms j show ?thesis by simp
qed

lemma div_succ_same:
  assumes "(i::nat) mod C < C - 1"
  shows "(i + 1) div C = i div C"
proof -
  have m: "Suc i mod C = Suc (i mod C)" using assms by (simp add: mod_Suc)
  have "Suc i div C = (if Suc i mod C = 0 then Suc (i div C) else i div C)" by (rule div_Suc)
  with m show ?thesis by simp
qed

lemma getitem_nat [simp]: "i < length xs \<Longrightarrow> getitem xs (int i) = Inr (xs ! i)"
  by (simp add: getitem_def)

lemma move_in_grid:
  assumes wf: "wf_grid g" and ok: "walls_ok g" and i: "i < n_cells g"
    and p: "current_cell g = int i"
  shows "\<exists>h. handle_player_movement g = Inr h \<and>
           0 \<le> current_cell h \<and> current_cell h < int (n_cells g) \<and>
           (player_next_move g = LEFT \<or> player_next_move g = RIGHT \<longrightarrow>
              current_cell h div int (cols g) = current_cell g div int (cols g))"
proof -
  let ?C = "cols g" and ?R = "rows g" and ?c = "maze_cells g ! i"
  from wf have C: "0 < ?C" and n: "n_cells g = ?C * ?R" and len: "length (maze_cells g) = n_cells g"
    by (auto simp: wf_grid_def)
  from i n have i': "i < ?C * ?R" by simp
  have g: "\<not> flag d ?c \<Longrightarrow> ingrid ?C ?R d i" for d
    using ok i unfolding walls_ok_def by blast
  have u: "\<not> north ?c \<Longrightarrow> ?C \<le> i"
    using g[of U] nb_U(3,4)[OF C i'] by (simp add: up_ge)
  have d: "\<not> south ?c \<Longrightarrow> i + ?C < n_cells g"
    using g[of D] nb_D(1)[OF C i'] n by simp
  have l: "\<not> west ?c \<Longrightarrow> 0 < i \<and> (i - 1) div ?C = i div ?C"
    using g[of L] div_pred_same[of i ?C] by (cases "i = 0") auto
  have r: "\<not> east ?c \<Longrightarrow> i + 1 < n_cells g \<and> (i + 1) div ?C = i div ?C"
    using g[of Rt] nb_Rt(1)[OF C i'] div_succ_same[of i ?C] n by simp
  have il: "0 < i \<Longrightarrow> (int i - 1) div int ?C = int ((i - 1) div ?C)"
    by (simp add: zdiv_int of_nat_diff)
  have ir: "(int i + 1) div int ?C = int ((i + 1) div ?C)"
    by (simp add: zdiv_int add.commute)
  have i0: "int i div int ?C = int (i div ?C)" by (simp add: zdiv_int)
  show ?thesis
    using i len p u d l r il ir i0
    by (auto simp: handle_player_movement_def wall_open_def dir_defs)
qed

section \<open>Results on maze generation\<close>

lemma wf_walled_grid: "0 < r \<Longrightarrow> 0 < c \<Longrightarrow> wf_grid (walled_grid r c)"
  by (simp add: wf_grid_def walled_grid_def blank_def length_fresh_cells)

lemma walled_walled_grid: "walled (walled_grid r c)"
  unfolding walled_grid_def by (rule walled_fresh)

text \<open>
  Claim C2. For every grid with at least one cell, \<^verbatim>\<open>back_tracker\<close> run on the
  all-walled grid returns, and the open-wall graph of the maze it leaves is a spanning
  tree: the relation is symmetric (an undirected graph), it has exactly
  \<open>n_cells - 1\<close> undirected edges, every cell reaches every other cell, and no cycle
  exists.
\<close>

theorem back_tracker_spanning_tree:
  assumes "wf_grid g" and "walled g"
  shows "\<exists>g' k'. back_tracker rnd k g = Some (Inr (g', k')) \<and>
           cols g' = cols g \<and> rows g' = rows g \<and> n_cells g' = n_cells g \<and>
           spanning_tree g'"
proof -
  from back_tracker_total[OF assms, of rnd k] obtain g' stack' current' k' where
    r: "back_tracker rnd k g = Some (Inr (g', k'))"
      "bt_inv (g', stack', current', n_cells g', k')"
      "g' = g\<lparr>maze_cells := maze_cells g'\<rparr>" by blast
  from r(3) have "cols g' = cols g" "rows g' = rows g" "n_cells g' = n_cells g"
    by (metis game.select_convs(1,2,3) game.surjective game.update_convs(16))+
  with r(1) bt_inv_spanning_tree[OF r(2)] show ?thesis by blast
qed

theorem back_tracker_spanning_tree_witness:
  "wf_grid (walled_grid 2 2) \<and> walled (walled_grid 2 2) \<and>
   (\<exists>g' k'. back_tracker zeros 0 (walled_grid 2 2) = Some (Inr (g', k')) \<and>
      cols g' = 2 \<and> rows g' = 2 \<and> n_cells g' = 4 \<and> spanning_tree g')"
proof -
  have 1: "wf_grid (walled_grid 2 2)" by (simp add: wf_walled_grid)
  have 2: "walled (walled_grid 2 2)" by (rule walled_walled_grid)
  from back_tracker_spanning_tree[OF 1 2, of zeros 0] 1 2 show ?thesis
    by (simp add: walled_grid_def blank_def)
qed

text \<open>
  Claim C7, as amended. For every grid with at least one cell the generation loop
  terminates. In every state the loop passes through, the visited count is the number of
  visited cells and is at most \<open>n_cells\<close>, so the loop condition fails exactly when
  the count equals \<open>n_cells\<close>; while it holds, the iteration either visits a cell that
  was unvisited (pushing the current cell and adding one to the count) or pops the stack;
  and the stack is non-empty whenever unvisited cells remain and the current cell has no
  unvisited neighbour.
\<close>

theorem back_tracker_terminates:
  assumes wf: "wf_grid g" and w: "walled g" and e: "bt_entry g k = Inr st0"
  shows "(\<exists>g' k'. back_tracker rnd k g = Some (Inr (g', k'))) \<and>
         (\<forall>gs stack current vc ks.
            bt_reach rnd st0 (gs, stack, current, vc, ks) \<longrightarrow>
              vc = card (vis gs) \<and> vc \<le> n_cells gs \<and>
              ((\<not> vc < n_cells gs) = (vc = n_cells gs)) \<and>
              (vc < n_cells gs \<longrightarrow>
                 (\<exists>gs' next_cell.
                    bt_step rnd (gs, stack, current, vc, ks) =
                      Inr (gs', stack @ [current], next_cell, vc + 1, ks + 1) \<and>
                    next_cell \<notin> vis gs \<and> vis gs' = insert next_cell (vis gs)) \<or>
                 (stack \<noteq> [] \<and>
                    bt_step rnd (gs, stack, current, vc, ks) =
                      Inr (gs, butlast stack, last stack, vc, ks))) \<and>
              (vc < n_cells gs \<and> get_unvisited_neighbors gs current = Inr [] \<longrightarrow>
                 stack \<noteq> []))"
proof (intro conjI allI impI)
  from back_tracker_total[OF wf w, of rnd k]
  show "\<exists>g' k'. back_tracker rnd k g = Some (Inr (g', k'))" by blast
next
  fix gs stack current vc ks
  assume reach: "bt_reach rnd st0 (gs, stack, current, vc, ks)"
  from bt_inv_entry[OF wf w, of k] e have "bt_inv st0" by (auto simp: bt_entry_def)
  with reach have inv: "bt_inv (gs, stack, current, vc, ks)" by (rule bt_reach_inv)
  then have wfs: "wf_grid gs" and cur: "current \<in> vis gs" and vc: "vc = card (vis gs)"
    by (auto simp: bt_inv_def)
  show "vc = card (vis gs)" by (rule vc)
  show le: "vc \<le> n_cells gs" unfolding vc by (rule card_vis_le)
  show "(\<not> vc < n_cells gs) = (vc = n_cells gs)" using le by auto
  {
    assume lt: "vc < n_cells gs"
    from bt_step_cases[OF inv lt, of rnd]
    show "(\<exists>gs' next_cell.
              bt_step rnd (gs, stack, current, vc, ks) =
                Inr (gs', stack @ [current], next_cell, vc + 1, ks + 1) \<and>
              next_cell \<notin> vis gs \<and> vis gs' = insert next_cell (vis gs)) \<or>
          (stack \<noteq> [] \<and>
              bt_step rnd (gs, stack, current, vc, ks) =
                Inr (gs, butlast stack, last stack, vc, ks))"
    proof (elim disjE exE conjE)
      fix d assume d: "ingrid (cols gs) (rows gs) d current" "nb (cols gs) d current \<notin> vis gs"
        "bt_step rnd (gs, stack, current, vc, ks) =
           Inr (carve gs current d, stack @ [current], nb (cols gs) d current, vc + 1, ks + 1)"
      from vis_carve[OF wfs vis_less[OF cur] d(1)] d(2,3) show ?thesis by blast
    next
      assume "stack \<noteq> []" "bt_step rnd (gs, stack, current, vc, ks) =
         Inr (gs, butlast stack, last stack, vc, ks)"
      then show ?thesis by blast
    qed
  }
  {
    assume a: "vc < n_cells gs \<and> get_unvisited_neighbors gs current = Inr []"
    show "stack \<noteq> []"
    proof
      assume "stack = []"
      with inv unvisited_nil[OF wfs vis_less[OF cur]] a have "vc = n_cells gs"
        by (auto dest: bt_inv_not_stuck)
      with a show False by simp
    qed
  }
qed

theorem back_tracker_terminates_witness:
  "wf_grid (walled_grid 1 2) \<and> walled (walled_grid 1 2) \<and>
   bt_entry (walled_grid 1 2) 0 = Inr (projr (bt_entry (walled_grid 1 2) 0)) \<and>
   (\<exists>g' k'. back_tracker zeros 0 (walled_grid 1 2) = Some (Inr (g', k'))) \<and>
   bt_reach zeros (projr (bt_entry (walled_grid 1 2) 0)) (projr (bt_entry (walled_grid 1 2) 0)) \<and>
   count_of (projr (bt_entry (walled_grid 1 2) 0)) \<le> n_cells (game_of (projr (bt_entry (walled_grid 1 2) 0)))"
proof -
  let ?s = "projr (bt_entry (walled_grid 1 2) 0)"
  have 1: "wf_grid (walled_grid 1 2)" by (simp add: wf_walled_grid)
  have 2: "walled (walled_grid 1 2)" by (rule walled_walled_grid)
  have 3: "bt_entry (walled_grid 1 2) 0 = Inr ?s"
    using bt_inv_entry[OF 1 2, of 0] by (auto simp: bt_entry_def)
  have 4: "bt_reach zeros ?s ?s" by (rule bt_reach.entry)
  obtain gs stack current vc ks where s: "?s = (gs, stack, current, vc, ks)"
    by (cases ?s) auto
  from back_tracker_terminates[OF 1 2 3, of zeros] 4 s
  have "(\<exists>g' k'. back_tracker zeros 0 (walled_grid 1 2) = Some (Inr (g', k')))"
    and "vc \<le> n_cells gs" by auto
  with 1 2 3 4 s show ?thesis by simp
qed

text \<open>
  Claim C7 as stated fails at loop entry: on a grid of one row and two columns cell 1
  is unvisited and the stack is empty.
\<close>

theorem stack_empty_at_loop_entry:
  "bt_entry (walled_grid 1 2) 0 = Inr (projr (bt_entry (walled_grid 1 2) 0)) \<and>
   bt_reach zeros (projr (bt_entry (walled_grid 1 2) 0)) (projr (bt_entry (walled_grid 1 2) 0)) \<and>
   count_of (projr (bt_entry (walled_grid 1 2) 0)) < n_cells (game_of (projr (bt_entry (walled_grid 1 2) 0))) \<and>
   \<not> visited (maze_cells (game_of (projr (bt_entry (walled_grid 1 2) 0))) ! 1) \<and>
   stack_of (projr (bt_entry (walled_grid 1 2) 0)) = []"
proof -
  have e: "bt_entry (walled_grid 1 2) 0 =
      Inr ((blank 1 2)\<lparr>maze_cells := [(Cell 0 0 50 (0, 0))\<lparr>visited := True\<rparr>, Cell 0 1 50 (0, 0)]\<rparr>,
           [], 0, 1, 0)"
    by (simp add: bt_entry_def mark_visited_def walled_grid_def fresh_cells_def blank_def upt_rec)
  show ?thesis
    unfolding e by (simp add: bt_reach.entry blank_def Cell_def)
qed

text \<open>
  Claim C8. Every cell of a fresh grid has its four walls closed. After generation the
  wall flags are symmetric: for vertically adjacent cells the upper cell's south flag
  equals the lower cell's north flag, and for horizontally adjacent cells the left cell's
  east flag equals the right cell's west flag. The same holds in every state the
  generation loop passes through, since walls are removed in matching pairs.
\<close>

theorem generated_walls_symmetric:
  assumes "0 < cols g" and "0 < rows g" and "n_cells g = cols g * rows g"
  shows "(\<forall>c \<in> set (fresh_cells g). north c \<and> south c \<and> east c \<and> west c) \<and>
         (\<exists>g' k'. generate_maze rnd k g = Some (Inr (g', k')) \<and> symmetric_walls g') \<and>
         (\<forall>g1 st0 st.
            calculate_cell_size_and_offsets g = Inr g1 \<and>
            bt_entry (g1\<lparr>maze_cells := fresh_cells g1\<rparr>) k = Inr st0 \<and>
            bt_reach rnd st0 st \<longrightarrow> symmetric_walls (game_of st))"
proof (intro conjI allI impI)
  show "\<forall>c \<in> set (fresh_cells g). north c \<and> south c \<and> east c \<and> west c"
    by (auto simp: fresh_cells_def Cell_def)
next
  from generate_maze_total[OF assms, of rnd k] obtain g' stack' current' k' where
    r: "generate_maze rnd k g = Some (Inr (g', k'))"
      "bt_inv (g', stack', current', n_cells g', k')" by blast
  from r(2) have "wf_grid g'" "walls_ok g'" by (auto simp: bt_inv_def)
  then have "symmetric_walls g'" by (rule walls_ok_symmetric)
  with r(1) show "\<exists>g' k'. generate_maze rnd k g = Some (Inr (g', k')) \<and> symmetric_walls g'"
    by blast
next
  fix g1 st0 st
  assume a: "calculate_cell_size_and_offsets g = Inr g1 \<and>
             bt_entry (g1\<lparr>maze_cells := fresh_cells g1\<rparr>) k = Inr st0 \<and> bt_reach rnd st0 st"
  let ?g2 = "g1\<lparr>maze_cells := fresh_cells g1\<rparr>"
  from a assms have f: "cols g1 = cols g" "rows g1 = rows g" "n_cells g1 = n_cells g"
    by (auto simp: calculate_cell_size_and_offsets_def Let_def split: if_splits)
  have wf: "wf_grid ?g2" using assms f by (simp add: wf_grid_def length_fresh_cells)
  have w: "walled ?g2" by (rule walled_fresh)
  from bt_inv_entry[OF wf w, of k] a have "bt_inv st0" by (auto simp: bt_entry_def)
  with a have inv: "bt_inv st" by (auto intro: bt_reach_inv)
  obtain gs stack current vc ks where st: "st = (gs, stack, current, vc, ks)"
    by (cases st) auto
  from inv st have "wf_grid gs" "walls_ok gs" by (auto simp: bt_inv_def)
  then have "symmetric_walls gs" by (rule walls_ok_symmetric)
  with st show "symmetric_walls (game_of st)" by simp
qed

theorem generated_walls_symmetric_witness:
  "0 < cols (blank 2 3) \<and> 0 < rows (blank 2 3) \<and>
   n_cells (blank 2 3) = cols (blank 2 3) * rows (blank 2 3) \<and>
   (\<exists>g' k'. generate_maze zeros 0 (blank 2 3) = Some (Inr (g', k')) \<and> symmetric_walls g')"
  using generated_walls_symmetric[of "blank 2 3" zeros 0]
  by (simp add: blank_def)

text \<open>
  Claim C9. Generation never opens a wall on the outer edge of the grid: the boundary
  walls are closed in the generated maze and in every state the generation loop passes
  through. So from every player cell in \<open>[0, n_cells)\<close> and for every move intent
  \<^verbatim>\<open>handle_player_movement\<close> yields a cell in \<open>[0, n_cells)\<close>, in the same row for
  a move left or right.
\<close>

theorem player_stays_in_grid:
  assumes "0 < cols g" and "0 < rows g" and "n_cells g = cols g * rows g"
  shows "\<exists>g' k'. generate_maze rnd k g = Some (Inr (g', k')) \<and> boundary_closed g' \<and>
           (\<forall>p m. 0 \<le> p \<and> p < int (n_cells g') \<longrightarrow>
              (\<exists>h. handle_player_movement (g'\<lparr>current_cell := p, player_next_move := m\<rparr>) = Inr h \<and>
                 0 \<le> current_cell h \<and> current_cell h < int (n_cells g') \<and>
                 (m = LEFT \<or> m = RIGHT \<longrightarrow>
                    current_cell h div int (cols g') = p div int (cols g')))) \<and>
           (\<forall>g1 st0 st.
              calculate_cell_size_and_offsets g = Inr g1 \<and>
              bt_entry (g1\<lparr>maze_cells := fresh_cells g1\<rparr>) k = Inr st0 \<and>
              bt_reach rnd st0 st \<longrightarrow> boundary_closed (game_of st))"
proof -
  have loop: "boundary_closed (game_of st)"
    if a: "calculate_cell_size_and_offsets g = Inr g1 \<and>
           bt_entry (g1\<lparr>maze_cells := fresh_cells g1\<rparr>) k = Inr st0 \<and> bt_reach rnd st0 st"
    for g1 st0 st
  proof -
    let ?g2 = "g1\<lparr>maze_cells := fresh_cells g1\<rparr>"
    from a assms have f: "cols g1 = cols g" "rows g1 = rows g" "n_cells g1 = n_cells g"
      by (auto simp: calculate_cell_size_and_offsets_def Let_def split: if_splits)
    have wf: "wf_grid ?g2" using assms f by (simp add: wf_grid_def length_fresh_cells)
    have w: "walled ?g2" by (rule walled_fresh)
    from bt_inv_entry[OF wf w, of k] a have "bt_inv st0" by (auto simp: bt_entry_def)
    with a have inv: "bt_inv st" by (auto intro: bt_reach_inv)
    obtain gs stack current vc ks where st: "st = (gs, stack, current, vc, ks)"
      by (cases st) auto
    from inv st have "wf_grid gs" "walls_ok gs" by (auto simp: bt_inv_def)
    then have "boundary_closed gs" by (rule walls_ok_boundary)
    with st show ?thesis by simp
  qed
  from generate_maze_total[OF assms, of rnd k] obtain g' stack' current' k' where
    r: "generate_maze rnd k g = Some (Inr (g', k'))"
      "bt_inv (g', stack', current', n_cells g', k')" by blast
  from r(2) have wf: "wf_grid g'" and ok: "walls_ok g'" by (auto simp: bt_inv_def)
  have b: "boundary_closed g'" using wf ok by (rule walls_ok_boundary)
  have "\<exists>h. handle_player_movement (g'\<lparr>current_cell := p, player_next_move := m\<rparr>) = Inr h \<and>
          0 \<le> current_cell h \<and> current_cell h < int (n_cells g') \<and>
          (m = LEFT \<or> m = RIGHT \<longrightarrow> current_cell h div int (cols g') = p div int (cols g'))"
    if p: "0 \<le> p \<and> p < int (n_cells g')" for p m
  proof -
    let ?g = "g'\<lparr>current_cell := p, player_next_move := m\<rparr>"
    have 1: "wf_grid ?g" using wf by (simp add: wf_grid_def)
    have 2: "walls_ok ?g" using ok by (simp add: walls_ok_def)
    have 3: "nat p < n_cells ?g" using p by (auto simp: nat_less_iff)
    have 4: "current_cell ?g = int (nat p)" using p by simp
    from move_in_grid[OF 1 2 3 4] show ?thesis by simp
  qed
  with r(1) b loop show ?thesis by blast
qed

theorem player_stays_in_grid_witness:
  "0 < cols (blank 2 2) \<and> 0 < rows (blank 2 2) \<and>
   n_cells (blank 2 2) = cols (blank 2 2) * rows (blank 2 2) \<and>
   (\<exists>g' k'. generate_maze zeros 0 (blank 2 2) = Some (Inr (g', k')) \<and> boundary_closed g' \<and>
      (\<exists>h. handle_player_movement (g'\<lparr>current_cell := 1, player_next_move := RIGHT\<rparr>) = Inr h \<and>
         0 \<le> current_cell h \<and> current_cell h < int (n_cells g') \<and>
         current_cell h div int (cols g') = 1 div int (cols g')))"
proof -
  have h: "0 < cols (blank 2 2)" "0 < rows (blank 2 2)"
    "n_cells (blank 2 2) = cols (blank 2 2) * rows (blank 2 2)"
    by (simp_all add: blank_def)
  from player_stays_in_grid[OF h, of zeros 0] obtain g' k' where
    r: "generate_maze zeros 0 (blank 2 2) = Some (Inr (g', k'))" "boundary_closed g'"
    and m: "\<And>p m. 0 \<le> p \<and> p < int (n_cells g') \<Longrightarrow>
       \<exists>h. handle_player_movement (g'\<lparr>current_cell := p, player_next_move := m\<rparr>) = Inr h \<and>
          0 \<le> current_cell h \<and> current_cell h < int (n_cells g') \<and>
          (m = LEFT \<or> m = RIGHT \<longrightarrow> current_cell h div int (cols g') = p div int (cols g'))"
    by blast
  from generate_maze_total[OF h, of zeros 0] r(1) have "n_cells g' = 4"
    by (auto simp: blank_def) (metis game.select_convs(3) game.surjective game.update_convs(16,17,18))
  then have "0 \<le> (1::int) \<and> 1 < int (n_cells g')" by simp
  from m[OF this, of RIGHT] r h show ?thesis by auto
qed

section \<open>Results on player and agent movement\<close>

text \<open>
  Claim C5. From a player position whose cell is \<open>c\<close>, \<^verbatim>\<open>handle_player_movement\<close>
  moves the player to the adjacent cell in the intended direction when the wall flag of
  \<open>c\<close> on that side is false and leaves the position unchanged when it is true (so, in
  a grid with at least one column, the position changes exactly when the flag is false);
  in both cases, and for any other intent, the pending move is reset to waiting.
\<close>

theorem handle_player_movement_legal:
  assumes "getitem (maze_cells g) (current_cell g) = Inr c"
  shows "\<exists>g'. handle_player_movement g = Inr g' \<and> player_next_move g' = WAITING \<and>
           (player_next_move g = UP \<longrightarrow>
              current_cell g' = (if north c then current_cell g else current_cell g - int (cols g))) \<and>
           (player_next_move g = DOWN \<longrightarrow>
              current_cell g' = (if south c then current_cell g else current_cell g + int (cols g))) \<and>
           (player_next_move g = LEFT \<longrightarrow>
              current_cell g' = (if west c then current_cell g else current_cell g - 1)) \<and>
           (player_next_move g = RIGHT \<longrightarrow>
              current_cell g' = (if east c then current_cell g else current_cell g + 1)) \<and>
           (player_next_move g \<notin> {UP, DOWN, LEFT, RIGHT} \<longrightarrow> current_cell g' = current_cell g) \<and>
           (0 < cols g \<longrightarrow>
              (current_cell g' \<noteq> current_cell g) =
                (player_next_move g = UP \<and> \<not> north c \<or> player_next_move g = DOWN \<and> \<not> south c \<or>
                 player_next_move g = LEFT \<and> \<not> west c \<or> player_next_move g = RIGHT \<and> \<not> east c))"
  using assms by (auto simp: handle_player_movement_def wall_open_def dir_defs)

theorem handle_player_movement_legal_witness:
  "getitem (maze_cells corridor) (current_cell corridor) = Inr (maze_cells corridor ! 0) \<and>
   (\<exists>g'. handle_player_movement corridor = Inr g' \<and> player_next_move g' = WAITING \<and>
      current_cell g' = 1)"
  using handle_player_movement_legal [of corridor "maze_cells corridor ! 0"]
  by (auto simp: corridor_def blank_def getitem_def Cell_def dir_defs)

text \<open>
  Claim C10. \<^verbatim>\<open>handle_player_movement\<close> changes only the player's current cell and
  the pending move: the maze cells with their wall flags, the exit cell, the agent cell,
  the agent path, the level number and the grid dimensions are unchanged.
\<close>

theorem handle_player_movement_frame:
  assumes "handle_player_movement g = Inr g'"
  shows "g' = g\<lparr>current_cell := current_cell g', player_next_move := WAITING\<rparr> \<and>
         maze_cells g' = maze_cells g \<and> exit_cell g' = exit_cell g \<and>
         agent_cell g' = agent_cell g \<and> agent_path g' = agent_path g \<and>
         level g' = level g \<and> cols g' = cols g \<and> rows g' = rows g \<and> n_cells g' = n_cells g"
  using assms
  by (auto simp: handle_player_movement_def wall_open_def bind_e_def split: sum.splits if_splits)

theorem handle_player_movement_frame_witness:
  "handle_player_movement corridor = Inr (corridor\<lparr>current_cell := 1, player_next_move := WAITING\<rparr>) \<and>
   maze_cells (corridor\<lparr>current_cell := 1, player_next_move := WAITING\<rparr>) = maze_cells corridor \<and>
   agent_path (corridor\<lparr>current_cell := 1, player_next_move := WAITING\<rparr>) = agent_path corridor"
proof -
  have h: "handle_player_movement corridor =
             Inr (corridor\<lparr>current_cell := 1, player_next_move := WAITING\<rparr>)"
    by (simp add: handle_player_movement_def wall_open_def corridor_def blank_def getitem_def
        Cell_def dir_defs)
  from handle_player_movement_frame[OF h] h show ?thesis by simp
qed

text \<open>
  Claim C6. On every tick \<^verbatim>\<open>handle_agent_movement\<close> sets the delay threshold to the
  tick's own draw from \<open>[200, 300)\<close>, whatever the previous threshold was. The threshold
  is the raw draw below 100 shifted by 200, a bijection onto \<open>[200, 300)\<close>, so it is
  uniform when the raw draw of the random source is.
  When the path is non-empty and the time since the last step is at least this
  threshold, the front cell of the path, and only it, is popped and becomes the agent's
  cell and the last-step time is reset; otherwise the agent's cell, the path and the
  last-step time are unchanged, in particular when the path is empty.
\<close>

theorem handle_agent_movement_tick:
  "delay (handle_agent_movement r now1 now2 g) = randrange 200 300 r \<and>
   200 \<le> randrange 200 300 r \<and> randrange 200 300 r < 300 \<and>
   bij_betw (randrange 200 300) {..<100} {200..<300} \<and>
   (\<forall>c rest. agent_path g = Some (c # rest) \<and> now1 - delay_time g \<ge> randrange 200 300 r \<longrightarrow>
      agent_cell (handle_agent_movement r now1 now2 g) = c \<and>
      agent_path (handle_agent_movement r now1 now2 g) = Some rest \<and>
      delay_time (handle_agent_movement r now1 now2 g) = now2) \<and>
   (agent_path g = None \<or> agent_path g = Some [] \<or> now1 - delay_time g < randrange 200 300 r \<longrightarrow>
      agent_cell (handle_agent_movement r now1 now2 g) = agent_cell g \<and>
      agent_path (handle_agent_movement r now1 now2 g) = agent_path g \<and>
      delay_time (handle_agent_movement r now1 now2 g) = delay_time g)"
proof -
  have "bij_betw (randrange 200 300) {..<100} {200..<300}"
    unfolding bij_betw_def
  proof
    show "inj_on (randrange 200 300) {..<100}"
      by (rule inj_onI) (simp add: randrange_def)
    show "randrange 200 300 ` {..<100} = {200..<300}"
    proof (intro set_eqI iffI)
      fix d assume "d \<in> randrange 200 300 ` {..<100}"
      then show "d \<in> {200..<300}" by (auto simp: randrange_def)
    next
      fix d :: int assume d: "d \<in> {200..<300}"
      then have "randrange 200 300 (nat (d - 200)) = d" "nat (d - 200) < 100"
        by (auto simp: randrange_def)
      then show "d \<in> randrange 200 300 ` {..<100}" by (metis imageI lessThan_iff)
    qed
  qed
  then show ?thesis
    by (auto simp: handle_agent_movement_def randrange_def Let_def
        split: option.splits list.splits)
qed

theorem handle_agent_movement_tick_witness:
  "agent_path corridor = Some [0, 1] \<and> 250 - delay_time corridor \<ge> randrange 200 300 7 \<and>
   delay (handle_agent_movement 7 250 251 corridor) = 207 \<and>
   agent_cell (handle_agent_movement 7 250 251 corridor) = 0 \<and>
   agent_path (handle_agent_movement 7 250 251 corridor) = Some [1] \<and>
   delay_time (handle_agent_movement 7 250 251 corridor) = 251"
  using handle_agent_movement_tick [of 7 250 251 corridor]
  by (simp add: corridor_def blank_def randrange_def)

section \<open>The pathfinder\<close>

lemma get_neighbors_ok:
  assumes wf: "wf_grid g" and c: "c < n_cells g"
  shows "\<exists>ns. get_neighbors g c = Inr ns \<and> (\<forall>w. w \<in> fst ` set ns \<longleftrightarrow> passage g c w) \<and>
           (\<forall>w \<in> fst ` set ns. w < n_cells g)"
proof -
  let ?C = "cols g" and ?R = "rows g"
  from wf have C: "0 < ?C" and n: "n_cells g = ?C * ?R" and len: "length (maze_cells g) = n_cells g"
    by (auto simp: wf_grid_def)
  from c n have c': "c < ?C * ?R" by simp
  define ns where "ns =
      (if \<not> north (maze_cells g ! c) \<and> 0 < c div ?C then [(c - ?C, UP)] else [])
    @ (if \<not> south (maze_cells g ! c) \<and> c div ?C < ?R - 1 then [(c + ?C, DOWN)] else [])
    @ (if \<not> west (maze_cells g ! c) \<and> 0 < c mod ?C then [(c - 1, LEFT)] else [])
    @ (if \<not> east (maze_cells g ! c) \<and> c mod ?C < ?C - 1 then [(c + 1, RIGHT)] else [])"
  have ns: "get_neighbors g c = Inr ns"
    using C c len by (simp add: get_neighbors_def Let_def ns_def)
  have 1: "\<forall>w. w \<in> fst ` set ns \<longleftrightarrow> passage g c w" using ns c by (simp add: passage_def)
  have 2: "w < n_cells g" if "w \<in> fst ` set ns" for w
  proof -
    from that consider "w = c - ?C" "0 < c div ?C" | "w = c + ?C" "c div ?C < ?R - 1"
      | "w = c - 1" "0 < c mod ?C" | "w = c + 1" "c mod ?C < ?C - 1"
      unfolding ns_def by (auto split: if_splits)
    then show ?thesis
      using nb_U(1)[OF C c'] nb_D(1)[OF C c'] nb_L(1)[OF C c'] nb_Rt(1)[OF C c'] n
      by cases simp_all
  qed
  from ns 1 2 show ?thesis by blast
qed

lemma passage_less:
  assumes "wf_grid g" "passage g v w"
  shows "v < n_cells g" "w < n_cells g"
proof -
  from assms(2) show v: "v < n_cells g" by (simp add: passage_def)
  from get_neighbors_ok[OF assms(1) v] assms(2) show "w < n_cells g" by blast
qed

lemma card_unvisited_update:
  assumes "w < length vf" "\<not> vf ! w"
  shows "Suc (card {i. i < length (vf[w := True]) \<and> \<not> vf[w := True] ! i}) =
         card {i. i < length vf \<and> \<not> vf ! i}"
proof -
  let ?A = "{i. i < length vf \<and> \<not> vf ! i}"
  have eq: "{i. i < length (vf[w := True]) \<and> \<not> vf[w := True] ! i} = ?A - {w}"
    using assms by (auto simp: nth_list_update)
  have "w \<in> ?A" using assms by simp
  moreover have "finite ?A" by simp
  ultimately have "Suc (card (?A - {w})) = card ?A" by (rule card_Suc_Diff1[rotated])
  then show ?thesis unfolding eq .
qed

lemma bfs_invD:
  assumes "bfs_inv g s t F (queue, vf, par)"
  shows "length vf = n_cells g" and "length par = n_cells g" and "s < n_cells g"
    and "vf ! s" and "par ! s = None"
    and "\<forall>v \<in> set queue. v < n_cells g \<and> vf ! v"
    and "\<exists>d :: nat \<Rightarrow> nat. \<forall>v < n_cells g. vf ! v \<and> v \<noteq> s \<longrightarrow>
           (\<exists>u. par ! v = Some u \<and> u < n_cells g \<and> vf ! u \<and> passage g u v \<and> d u < d v)"
    and "\<forall>v < n_cells g. vf ! v \<and> v \<notin> set queue \<and> v \<notin> F \<longrightarrow>
           v \<noteq> t \<and> (\<forall>w. passage g v w \<longrightarrow> vf ! w)"
  using assms unfolding bfs_inv_def prod.case by blast+

text \<open>One neighbour of the cell being expanded.\<close>

lemma bfs_inv_visit:
  assumes inv: "bfs_inv g s t F (queue, vf, par)"
    and c: "c < n_cells g" "vf ! c" and e: "passage g c w" and w: "w < n_cells g" "\<not> vf ! w"
  shows "bfs_inv g s t F (queue @ [w], vf[w := True], par[w := Some c])"
proof -
  let ?n = "n_cells g"
  note D = bfs_invD[OF inv]
  note len = D(1,2) and s = D(3,4,5) and q = D(6) and cl = D(8)
  from D(7) obtain d :: "nat \<Rightarrow> nat" where
    d: "\<forall>v < ?n. vf ! v \<and> v \<noteq> s \<longrightarrow>
          (\<exists>u. par ! v = Some u \<and> u < ?n \<and> vf ! u \<and> passage g u v \<and> d u < d v)"
    by blast
  from s w have ws: "w \<noteq> s" by auto
  from c w have wc: "w \<noteq> c" by auto
  have vf': "vf[w := True] ! v = (vf ! v \<or> v = w)" if "v < ?n" for v
    using that len w by (simp add: nth_list_update)
  have par': "par[w := Some c] ! v = (if v = w then Some c else par ! v)" if "v < ?n" for v
    using that len w by (simp add: nth_list_update)
  let ?d = "d(w := Suc (d c))"
  have 1: "\<forall>v < ?n. vf[w := True] ! v \<and> v \<noteq> s \<longrightarrow>
             (\<exists>u. par[w := Some c] ! v = Some u \<and> u < ?n \<and> vf[w := True] ! u \<and>
                  passage g u v \<and> ?d u < ?d v)"
  proof (intro allI impI)
    fix v assume v: "v < ?n" and a: "vf[w := True] ! v \<and> v \<noteq> s"
    show "\<exists>u. par[w := Some c] ! v = Some u \<and> u < ?n \<and> vf[w := True] ! u \<and>
               passage g u v \<and> ?d u < ?d v"
    proof (cases "v = w")
      case True
      with c e wc v show ?thesis by (intro exI[of _ c]) (simp add: par' vf')
    next
      case False
      with a v have "vf ! v \<and> v \<noteq> s" by (auto simp: vf')
      with d v obtain u where u: "par ! v = Some u" "u < ?n" "vf ! u" "passage g u v" "d u < d v"
        by blast
      from u(3) w have "u \<noteq> w" by auto
      with u False v show ?thesis by (intro exI[of _ u]) (simp add: par' vf')
    qed
  qed
  have 2: "\<forall>v < ?n. vf[w := True] ! v \<and> v \<notin> set (queue @ [w]) \<and> v \<notin> F \<longrightarrow>
             v \<noteq> t \<and> (\<forall>x. passage g v x \<longrightarrow> vf[w := True] ! x)"
  proof (intro allI impI)
    fix v assume v: "v < ?n" and a: "vf[w := True] ! v \<and> v \<notin> set (queue @ [w]) \<and> v \<notin> F"
    then have "vf ! v \<and> v \<notin> set queue \<and> v \<notin> F" by (auto simp: vf')
    with cl v have "v \<noteq> t" "\<forall>x. passage g v x \<longrightarrow> vf ! x" by blast+
    then show "v \<noteq> t \<and> (\<forall>x. passage g v x \<longrightarrow> vf[w := True] ! x)"
      using len w by (auto simp: nth_list_update)
  qed
  have 3: "\<forall>v \<in> set (queue @ [w]). v < ?n \<and> vf[w := True] ! v"
    using q w by (auto simp: vf')
  have 4: "vf[w := True] ! s" "par[w := Some c] ! s = None"
    using s ws by (simp_all add: vf' par')
  have 5: "\<exists>d :: nat \<Rightarrow> nat. \<forall>v < ?n. vf[w := True] ! v \<and> v \<noteq> s \<longrightarrow>
             (\<exists>u. par[w := Some c] ! v = Some u \<and> u < ?n \<and> vf[w := True] ! u \<and>
                  passage g u v \<and> d u < d v)"
    using 1 by (rule exI[of _ ?d])
  have 0: "length (vf[w := True]) = ?n" "length (par[w := Some c]) = ?n"
    using len by simp_all
  show ?thesis
    unfolding bfs_inv_def prod.case by (intro conjI 0 s(1) 4 3 5 2)
qed

lemma bfs_measure_visit:
  assumes "w < length vf" "\<not> vf ! w"
  shows "bfs_measure (queue @ [w], vf[w := True], par') < bfs_measure (queue, vf, par)"
  using card_unvisited_update[OF assms] by (simp add: bfs_measure_def)

lemma visit_neighbors_inv:
  assumes "bfs_inv g s t F (queue, vf, par)" and "c < n_cells g" and "vf ! c"
    and "\<forall>w \<in> fst ` set ns. passage g c w \<and> w < n_cells g"
  shows "\<exists>queue' vf' par'.
           visit_neighbors c ns (queue, vf, par) = Inr (queue', vf', par') \<and>
           bfs_inv g s t F (queue', vf', par') \<and>
           (\<forall>w \<in> fst ` set ns. vf' ! w) \<and>
           (\<forall>v < n_cells g. vf ! v \<longrightarrow> vf' ! v) \<and>
           bfs_measure (queue', vf', par') \<le> bfs_measure (queue, vf, par)"
  using assms
proof (induction ns arbitrary: queue vf par)
  case Nil
  then show ?case by simp
next
  case (Cons a ns)
  obtain w dir where a: "a = (w, dir)" by (cases a) auto
  from Cons.prems(4) a have w: "passage g c w" "w < n_cells g"
    and rest: "\<forall>w \<in> fst ` set ns. passage g c w \<and> w < n_cells g" by auto
  note D = bfs_invD[OF Cons.prems(1)]
  show ?case
  proof (cases "vf ! w")
    case True
    from Cons.IH[OF Cons.prems(1,2,3) rest] obtain queue' vf' par' where
      r: "visit_neighbors c ns (queue, vf, par) = Inr (queue', vf', par')"
        "bfs_inv g s t F (queue', vf', par')" "\<forall>w \<in> fst ` set ns. vf' ! w"
        "\<forall>v < n_cells g. vf ! v \<longrightarrow> vf' ! v"
        "bfs_measure (queue', vf', par') \<le> bfs_measure (queue, vf, par)" by blast
    have "visit_neighbors c (a # ns) (queue, vf, par) = Inr (queue', vf', par')"
      using True w(2) D(1) r(1) a by simp
    moreover have "\<forall>x \<in> fst ` set (a # ns). vf' ! x" using r(3,4) True w(2) a by auto
    ultimately show ?thesis using r(2,4,5) by blast
  next
    case False
    let ?q = "queue @ [w]" and ?vf = "vf[w := True]" and ?par = "par[w := Some c]"
    have inv': "bfs_inv g s t F (?q, ?vf, ?par)"
      using Cons.prems(1,2,3) w False by (rule bfs_inv_visit)
    have c': "?vf ! c" using Cons.prems(3) D(1) w(2) by (simp add: nth_list_update)
    from Cons.IH[OF inv' Cons.prems(2) c' rest] obtain queue' vf' par' where
      r: "visit_neighbors c ns (?q, ?vf, ?par) = Inr (queue', vf', par')"
        "bfs_inv g s t F (queue', vf', par')" "\<forall>w \<in> fst ` set ns. vf' ! w"
        "\<forall>v < n_cells g. ?vf ! v \<longrightarrow> vf' ! v"
        "bfs_measure (queue', vf', par') \<le> bfs_measure (?q, ?vf, ?par)" by blast
    have 1: "visit_neighbors c (a # ns) (queue, vf, par) = Inr (queue', vf', par')"
      using False w(2) D(1,2) r(1) a by simp
    have mono: "\<forall>v < n_cells g. vf ! v \<longrightarrow> vf' ! v"
      using r(4) D(1) w(2) by (auto simp: nth_list_update)
    have "?vf ! w" using D(1) w(2) by simp
    with r(4) w(2) have "vf' ! w" by blast
    then have 2: "\<forall>x \<in> fst ` set (a # ns). vf' ! x" using r(3) a by auto
    have "bfs_measure (?q, ?vf, ?par) < bfs_measure (queue, vf, par)"
      using w(2) D(1) False by (intro bfs_measure_visit) simp_all
    with r(5) have 3: "bfs_measure (queue', vf', par') \<le> bfs_measure (queue, vf, par)" by simp
    from 1 r(2) 2 mono 3 show ?thesis by blast
  qed
qed

lemma walk_snoc:
  assumes "walk E p" "(last p, v) \<in> E"
  shows "walk E (p @ [v])"
  using assms by (simp add: walk_def successively_append_iff)

lemma build_path_walk:
  assumes len: "length par = n_cells g" and s: "s < n_cells g" "par ! s = None"
    and d: "\<forall>v < n_cells g. vf ! v \<and> v \<noteq> s \<longrightarrow>
              (\<exists>u. par ! v = Some u \<and> u < n_cells g \<and> vf ! u \<and> passage g u v \<and> d u < d v)"
    and v: "v < n_cells g" "vf ! v"
  shows "\<exists>p. build_path par (Some v) acc = Some (Inr (p @ acc)) \<and> p \<noteq> [] \<and>
           hd p = s \<and> last p = v \<and> walk (passages g) p \<and> distinct p \<and>
           (\<forall>x \<in> set p. d x \<le> (d v :: nat))"
  using v
proof (induction "d v" arbitrary: v acc rule: less_induct)
  case less
  show ?case
  proof (cases "v = s")
    case True
    have "build_path par (Some v) acc = Some (Inr ([v] @ acc))"
      using True s len by (subst build_path.simps, subst build_path.simps) simp
    then show ?thesis using True by (intro exI[of _ "[v]"]) (simp add: walk_def)
  next
    case False
    with d less.prems obtain u where u: "par ! v = Some u" "u < n_cells g" "vf ! u"
      "passage g u v" "d u < d v" by blast
    from less.hyps[OF u(5) u(2,3), of "v # acc"] obtain p where
      p: "build_path par (Some u) (v # acc) = Some (Inr (p @ v # acc))" "p \<noteq> []"
        "hd p = s" "last p = u" "walk (passages g) p" "distinct p" "\<forall>x \<in> set p. d x \<le> d u"
      by blast
    have 1: "build_path par (Some v) acc = Some (Inr ((p @ [v]) @ acc))"
      using u(1) less.prems(1) len p(1) by (subst build_path.simps) simp
    have "v \<notin> set p" using p(7) u(5) by auto
    then have 2: "distinct (p @ [v])" using p(6) by simp
    have 3: "walk (passages g) (p @ [v])"
      using p(5) u(4) p(4) by (intro walk_snoc) (simp_all add: passages_def)
    have 4: "\<forall>x \<in> set (p @ [v]). d x \<le> d v" using p(7) u(5) by auto
    from 1 2 3 4 p(2,3) show ?thesis by (intro exI[of _ "p @ [v]"]) simp
  qed
qed

lemma bfs_inv_expand:
  assumes "bfs_inv g s t {} (c # queue, vf, par)"
  shows "bfs_inv g s t {c} (queue, vf, par)"
proof -
  note D = bfs_invD[OF assms]
  have 1: "\<forall>v \<in> set queue. v < n_cells g \<and> vf ! v" using D(6) by simp
  have 2: "\<forall>v < n_cells g. vf ! v \<and> v \<notin> set queue \<and> v \<notin> {c} \<longrightarrow>
             v \<noteq> t \<and> (\<forall>w. passage g v w \<longrightarrow> vf ! w)"
    using D(8) by simp
  show ?thesis unfolding bfs_inv_def prod.case by (intro conjI D(1,2,3,4,5) 1 D(7) 2)
qed

lemma bfs_inv_expanded:
  assumes inv: "bfs_inv g s t {c} (queue, vf, par)" and c: "c \<noteq> t"
    and all: "\<forall>w. passage g c w \<longrightarrow> vf ! w"
  shows "bfs_inv g s t {} (queue, vf, par)"
proof -
  note D = bfs_invD[OF inv]
  have 2: "\<forall>v < n_cells g. vf ! v \<and> v \<notin> set queue \<and> v \<notin> {} \<longrightarrow>
             v \<noteq> t \<and> (\<forall>w. passage g v w \<longrightarrow> vf ! w)"
  proof (intro allI impI)
    fix v assume "v < n_cells g" "vf ! v \<and> v \<notin> set queue \<and> v \<notin> {}"
    then show "v \<noteq> t \<and> (\<forall>w. passage g v w \<longrightarrow> vf ! w)"
      using D(8) c all by (cases "v = c") auto
  qed
  show ?thesis unfolding bfs_inv_def prod.case by (intro conjI D(1,2,3,4,5,6,7) 2)
qed

lemma bfs_inv_exhausted:
  assumes wf: "wf_grid g" and inv: "bfs_inv g s t {} ([], vf, par)"
  shows "(s, t) \<notin> (passages g)\<^sup>*"
proof
  note D = bfs_invD[OF inv]
  assume r: "(s, t) \<in> (passages g)\<^sup>*"
  have "(s, v) \<in> (passages g)\<^sup>* \<Longrightarrow> v < n_cells g \<and> vf ! v" for v
  proof (induction rule: rtrancl_induct)
    case base
    show ?case using D(3,4) by simp
  next
    case (step y z)
    from step.hyps(2) have p: "passage g y z" by (simp add: passages_def)
    from passage_less(2)[OF wf p] have "z < n_cells g" .
    moreover from D(8) step.IH p have "vf ! z" by auto
    ultimately show ?case by simp
  qed
  from this[OF r] D(8) show False by auto
qed

lemma bfs_loop_total:
  assumes wf: "wf_grid g" and inv: "bfs_inv g s t {} st"
  shows "\<exists>r. bfs_loop g t st = Some (Inr r) \<and>
           (case r of None \<Rightarrow> (s, t) \<notin> (passages g)\<^sup>*
            | Some p \<Rightarrow> path_from_to (passages g) s t p \<and> distinct p)"
  using inv
proof (induction "bfs_measure st" arbitrary: st rule: less_induct)
  case less
  obtain queue vf par where st: "st = (queue, vf, par)" by (cases st) auto
  show ?case
  proof (cases queue)
    case Nil
    have "bfs_loop g t st = Some (Inr None)"
      using Nil st by (subst bfs_loop.simps) simp
    moreover have "(s, t) \<notin> (passages g)\<^sup>*"
    proof (rule bfs_inv_exhausted[OF wf])
      show "bfs_inv g s t {} ([], vf, par)" using less.prems Nil st by simp
    qed
    ultimately show ?thesis by simp
  next
    case (Cons c q)
    from less.prems st Cons have inv: "bfs_inv g s t {} (c # q, vf, par)" by simp
    note D = bfs_invD[OF inv]
    from D(6) have c: "c < n_cells g" "vf ! c" by simp_all
    show ?thesis
    proof (cases "c = t")
      case True
      from D(7) obtain d :: "nat \<Rightarrow> nat" where
        d: "\<forall>v < n_cells g. vf ! v \<and> v \<noteq> s \<longrightarrow>
              (\<exists>u. par ! v = Some u \<and> u < n_cells g \<and> vf ! u \<and> passage g u v \<and> d u < d v)"
        by blast
      from build_path_walk[OF D(2,3,5) d c, of "[]"] obtain p where
        p: "build_path par (Some c) [] = Some (Inr p)" "p \<noteq> []" "hd p = s" "last p = c"
          "walk (passages g) p" "distinct p" by auto
      have "bfs_loop g t st = Some (Inr (Some p))"
        using True st Cons p(1) by (subst bfs_loop.simps) simp
      then show ?thesis using p True by (simp add: path_from_to_def)
    next
      case False
      from get_neighbors_ok[OF wf c(1)] obtain ns where
        ns: "get_neighbors g c = Inr ns" "\<forall>w. w \<in> fst ` set ns \<longleftrightarrow> passage g c w"
          "\<forall>w \<in> fst ` set ns. w < n_cells g" by blast
      have inv1: "bfs_inv g s t {c} (q, vf, par)" using inv by (rule bfs_inv_expand)
      have nsp: "\<forall>w \<in> fst ` set ns. passage g c w \<and> w < n_cells g" using ns(2,3) by blast
      from visit_neighbors_inv[OF inv1 c nsp] obtain q' vf' par' where
        r: "visit_neighbors c ns (q, vf, par) = Inr (q', vf', par')"
          "bfs_inv g s t {c} (q', vf', par')" "\<forall>w \<in> fst ` set ns. vf' ! w"
          "bfs_measure (q', vf', par') \<le> bfs_measure (q, vf, par)" by blast
      have all: "\<forall>w. passage g c w \<longrightarrow> vf' ! w" using r(3) ns(2) by blast
      have inv2: "bfs_inv g s t {} (q', vf', par')" using r(2) False all by (rule bfs_inv_expanded)
      have "bfs_measure (q, vf, par) < bfs_measure (c # q, vf, par)"
        by (simp add: bfs_measure_def)
      with r(4) st Cons have dec: "bfs_measure (q', vf', par') < bfs_measure st" by simp
      have "bfs_loop g t st = bfs_loop g t (q', vf', par')"
        using False st Cons ns(1) r(1) by (subst bfs_loop.simps) simp
      with less.hyps[OF dec inv2] show ?thesis by simp
    qed
  qed
qed

lemma compute_path_total:
  assumes wf: "wf_grid g" and s: "s < n_cells g"
  shows "\<exists>r. compute_path g s t = Some (Inr r) \<and>
           (case r of None \<Rightarrow> (s, t) \<notin> (passages g)\<^sup>*
            | Some p \<Rightarrow> path_from_to (passages g) s t p \<and> distinct p)"
proof -
  let ?n = "n_cells g"
  let ?vf = "(replicate ?n False)[s := True]" and ?par = "replicate ?n (None :: nat option)"
  have vf: "?vf ! v = (v = s)" if "v < ?n" for v
    using that s by (auto simp: nth_list_update)
  have 1: "\<forall>v \<in> set [s]. v < ?n \<and> ?vf ! v" using s by simp
  have 2: "\<exists>d :: nat \<Rightarrow> nat. \<forall>v < ?n. ?vf ! v \<and> v \<noteq> s \<longrightarrow>
             (\<exists>u. ?par ! v = Some u \<and> u < ?n \<and> ?vf ! u \<and> passage g u v \<and> d u < d v)"
    using vf by auto
  have 3: "\<forall>v < ?n. ?vf ! v \<and> v \<notin> set [s] \<and> v \<notin> {} \<longrightarrow>
             v \<noteq> t \<and> (\<forall>w. passage g v w \<longrightarrow> ?vf ! w)"
    using vf by auto
  have 4: "length ?vf = ?n" "length ?par = ?n" "?vf ! s" "?par ! s = None"
    using s by simp_all
  have inv: "bfs_inv g s t {} ([s], ?vf, ?par)"
    unfolding bfs_inv_def prod.case by (intro conjI 4 s 1 2 3)
  have "compute_path g s t = bfs_loop g t ([s], ?vf, ?par)"
    using s by (simp add: compute_path_def)
  with bfs_loop_total[OF wf inv] show ?thesis by simp
qed

lemma passages_walled:
  assumes wf: "wf_grid g" and w: "walled g"
  shows "passages g = {}"
proof -
  from wf have C: "0 < cols g" and len: "length (maze_cells g) = n_cells g"
    by (auto simp: wf_grid_def)
  have "\<not> passage g i j" for i j
  proof (cases "i < n_cells g")
    case True
    with walled_flag(1)[OF w, of i] len have
      "north (maze_cells g ! i)" "south (maze_cells g ! i)"
      "west (maze_cells g ! i)" "east (maze_cells g ! i)"
      by (metis flag.simps(1), metis flag.simps(2), metis flag.simps(3), metis flag.simps(4))
    with True C len show ?thesis by (simp add: passage_def get_neighbors_def Let_def)
  qed (simp add: passage_def)
  then show ?thesis by (simp add: passages_def)
qed

text \<open>
  Claim C3, as amended. On a well-formed maze, for every pair of cells \<open>start\<close> and
  \<open>target\<close>, if the target cannot be reached from the start through open walls,
  \<^verbatim>\<open>compute_path\<close> ends with its queue empty and returns Python's \<^verbatim>\<open>None\<close>: it
  returns no path, empty or partial, and raises no error.
\<close>

theorem compute_path_unreachable:
  assumes "wf_grid g" and "start < n_cells g" and "(start, target) \<notin> (passages g)\<^sup>*"
  shows "compute_path g start target = Some (Inr None)"
proof -
  from compute_path_total[OF assms(1,2), of target] obtain r where
    r: "compute_path g start target = Some (Inr r)"
      "case r of None \<Rightarrow> (start, target) \<notin> (passages g)\<^sup>*
       | Some p \<Rightarrow> path_from_to (passages g) start target p \<and> distinct p" by blast
  show ?thesis
  proof (cases r)
    case None
    with r(1) show ?thesis by simp
  next
    case (Some p)
    with r(2) have p: "walk (passages g) p" "hd p = start" "last p = target"
      by (simp_all add: path_from_to_def)
    have "walk E p \<Longrightarrow> (hd p, last p) \<in> E\<^sup>*" for E :: "(nat \<times> nat) set" and p
    proof (induction p rule: rev_induct)
      case Nil
      then show ?case by (simp add: walk_def)
    next
      case (snoc x xs)
      show ?case
      proof (cases "xs = []")
        case True
        then show ?thesis by simp
      next
        case False
        with snoc.prems have "walk E xs" "(last xs, x) \<in> E"
          by (auto simp: walk_def successively_append_iff)
        with snoc.IH False show ?thesis by (auto intro: rtrancl_into_rtrancl)
      qed
    qed
    from this[OF p(1)] p(2,3) assms(3) show ?thesis by simp
  qed
qed

theorem compute_path_unreachable_witness:
  "wf_grid (walled_grid 1 2) \<and> 0 < n_cells (walled_grid 1 2) \<and>
   (0, 1) \<notin> (passages (walled_grid 1 2))\<^sup>* \<and>
   compute_path (walled_grid 1 2) 0 1 = Some (Inr None)"
proof -
  have 1: "wf_grid (walled_grid 1 2)" by (simp add: wf_walled_grid)
  have 2: "0 < n_cells (walled_grid 1 2)" by (simp add: walled_grid_def blank_def)
  have "passages (walled_grid 1 2) = {}" using 1 walled_walled_grid by (rule passages_walled)
  then have 3: "(0, 1) \<notin> (passages (walled_grid 1 2))\<^sup>*" by simp
  from compute_path_unreachable[OF 1 2 3] 1 2 3 show ?thesis by simp
qed

text \<open>
  Claim C3 as stated fails: on the all-walled grid of one row and two columns cell 1
  cannot be reached from cell 0, and \<^verbatim>\<open>compute_path\<close> returns \<^verbatim>\<open>None\<close> without raising
  an error.
\<close>

theorem compute_path_returns_none:
  "get_neighbors (walled_grid 1 2) 0 = Inr [] \<and> get_neighbors (walled_grid 1 2) 1 = Inr [] \<and>
   compute_path (walled_grid 1 2) 0 1 = Some (Inr None)"
  by code_simp

section \<open>Level progression and restart\<close>

lemma passages_cong:
  assumes "cols h = cols g" "rows h = rows g" "n_cells h = n_cells g" "maze_cells h = maze_cells g"
  shows "passages h = passages g"
  unfolding passages_def passage_def get_neighbors_def assms ..

lemma wf_grid_cong:
  assumes "cols h = cols g" "rows h = rows g" "n_cells h = n_cells g" "maze_cells h = maze_cells g"
  shows "wf_grid h = wf_grid g"
  using assms by (simp add: wf_grid_def)

lemma choice_range: "0 < n \<Longrightarrow> choice r [0..<n] = Inr (r mod n)"
  by (simp add: choice_def)

lemma load_level_total:
  "\<exists>g' k'. load_level rnd k now g = Some (Inr (g', k')) \<and>
     level g' = level g + 1 \<and> cols g' = cols g + 1 \<and> rows g' = rows g + 1 \<and>
     n_cells g' = (cols g + 1) * (rows g + 1) \<and>
     current_cell g' = 0 \<and> agent_cell g' = 0 \<and> exit_cell g' < n_cells g' \<and>
     (\<exists>p. agent_path g' = Some p \<and> path_from_to (passages g') 0 (exit_cell g') p \<and> distinct p) \<and>
     start_time g' = now \<and> delay_time g' = now \<and>
     player_next_move g' = player_next_move g \<and> game_over g' = game_over g \<and>
     spanning_tree g'"
proof -
  define g2 where "g2 = g\<lparr>level := level g + 1, cols := cols g + 1, rows := rows g + 1,
    n_cells := (cols g + 1) * (rows g + 1)\<rparr>"
  have h: "0 < cols g2" "0 < rows g2" "n_cells g2 = cols g2 * rows g2" by (simp_all add: g2_def)
  from generate_maze_total[OF h, of rnd k] obtain g3 stack' current' k3 where
    g3: "generate_maze rnd k g2 = Some (Inr (g3, k3))"
      "bt_inv (g3, stack', current', n_cells g3, k3)"
      "g3 = g2\<lparr>cell_size := cell_size g3, offset := offset g3, maze_cells := maze_cells g3\<rparr>"
    by blast
  have f3: "level g3 = level g + 1" "cols g3 = cols g + 1" "rows g3 = rows g + 1"
    "n_cells g3 = (cols g + 1) * (rows g + 1)" "player_next_move g3 = player_next_move g"
    "game_over g3 = game_over g"
    by (subst g3(3), simp add: g2_def)+
  from g3(2) have wf3: "wf_grid g3" by (simp add: bt_inv_def)
  have st3: "spanning_tree g3" using g3(2) by (rule bt_inv_spanning_tree)
  have pos: "0 < n_cells g3" using f3(4) by simp
  define ex where "ex = rnd k3 mod n_cells g3"
  have ex: "ex < n_cells g3" using pos by (simp add: ex_def)
  define g4 where "g4 = g3\<lparr>current_cell := 0, exit_cell := ex, agent_cell := 0\<rparr>"
  have wf4: "wf_grid g4" using wf3 by (simp add: g4_def wf_grid_def)
  have p4: "passages g4 = passages g3" by (rule passages_cong) (simp_all add: g4_def)
  have n4: "n_cells g4 = n_cells g3" by (simp add: g4_def)
  from st3 pos ex have reach: "(0, ex) \<in> (passages g4)\<^sup>*"
    unfolding p4 spanning_tree_def by blast
  from compute_path_total[OF wf4, of 0 ex] pos n4 obtain r where
    r: "compute_path g4 0 ex = Some (Inr r)"
      "case r of None \<Rightarrow> (0, ex) \<notin> (passages g4)\<^sup>*
       | Some p \<Rightarrow> path_from_to (passages g4) 0 ex p \<and> distinct p" by auto
  from r(2) reach obtain p where p: "r = Some p" "path_from_to (passages g4) 0 ex p" "distinct p"
    by (cases r) auto
  define g5 where "g5 = g4\<lparr>agent_path := Some p, start_time := now, delay_time := now\<rparr>"
  have p5: "passages g5 = passages g3"
    unfolding p4[symmetric] by (rule passages_cong) (simp_all add: g5_def)
  have "load_level rnd k now g = Some (Inr (g5, k3 + 1))"
    using g3(1) r(1) p(1) pos
    by (simp add: load_level_def Let_def g2_def choice_range ex_def g4_def g5_def)
  moreover have "spanning_tree g5"
    using st3 unfolding spanning_tree_def p5 by (simp add: g5_def g4_def)
  moreover have "path_from_to (passages g5) 0 (exit_cell g5) p"
    using p(2) unfolding p5 p4 by (simp add: g5_def g4_def)
  ultimately show ?thesis
    using f3 ex p(3) by (intro exI[of _ g5] exI[of _ "k3 + 1"]) (simp add: g5_def g4_def)
qed

lemma clears_levels:
  assumes "level g + n \<le> LEVELS_TO_WIN"
  shows "\<exists>g' k'. clears rnd clock n k g = Some (Inr (Playing, g', k')) \<and>
           level g' = level g + n \<and> cols g' = cols g + n \<and> rows g' = rows g + n"
  using assms
proof (induction n)
  case 0
  then show ?case by simp
next
  case (Suc n)
  then obtain g' k' where
    r: "clears rnd clock n k g = Some (Inr (Playing, g', k'))" "level g' = level g + n"
      "cols g' = cols g + n" "rows g' = rows g + n" by auto
  let ?h = "g'\<lparr>current_cell := int (exit_cell g')\<rparr>"
  from load_level_total[of rnd k' "clock n" ?h] obtain g'' k'' where
    l: "load_level rnd k' (clock n) ?h = Some (Inr (g'', k''))" "level g'' = level ?h + 1"
      "cols g'' = cols ?h + 1" "rows g'' = rows ?h + 1" by blast
  have lt: "level ?h < LEVELS_TO_WIN" using Suc.prems r(2) by simp
  have "check_exit rnd k' (clock n) ?h = Some (Inr (Playing, g'', k''))"
    using lt l(1) by (simp add: check_exit_def)
  with r l show ?case by simp
qed

lemma MazeGame_total:
  "\<exists>g1 k1. MazeGame rnd k t0 t1 = Some (Inr (g1, k1)) \<and> level g1 = 1 \<and> cols g1 = 4 \<and> rows g1 = 4"
proof -
  let ?g0 = "\<lparr> cols = 3, rows = 3, n_cells = 3 * 3, delay = 300, level = 0, elapsed_time = 0,
         start_time = t0, delay_time = t0, quit = False, game_over = False,
         current_cell = 0, agent_cell = 0, exit_cell = 0, player_next_move = WAITING,
         agent_path = Some [], maze_cells = [], offset = (0, 0), cell_size = 50 \<rparr>"
  from load_level_total[of rnd k t1 ?g0] show ?thesis
    unfolding MazeGame_def by auto
qed

lemma restart_total:
  "\<exists>g' k'. restart rnd k now g = Some (Inr (g', k')) \<and> level g' = 1 \<and> cols g' = 4 \<and>
     rows g' = 4 \<and> current_cell g' = 0 \<and> agent_cell g' = 0 \<and> \<not> game_over g' \<and>
     player_next_move g' = WAITING \<and> agent_path (reset_fields g) = Some [] \<and>
     (\<exists>p. agent_path g' = Some p \<and> path_from_to (passages g') 0 (exit_cell g') p)"
proof -
  from load_level_total[of rnd k now "reset_fields g"] obtain g' k' where
    l: "load_level rnd k now (reset_fields g) = Some (Inr (g', k'))"
      "level g' = level (reset_fields g) + 1" "cols g' = cols (reset_fields g) + 1"
      "rows g' = rows (reset_fields g) + 1" "current_cell g' = 0" "agent_cell g' = 0"
      "player_next_move g' = player_next_move (reset_fields g)"
      "\<exists>p. agent_path g' = Some p \<and> path_from_to (passages g') 0 (exit_cell g') p \<and> distinct p"
    by blast
  let ?g = "g'\<lparr>game_over := False\<rparr>"
  have p: "passages ?g = passages g'" by (rule passages_cong) simp_all
  have "restart rnd k now g = Some (Inr (?g, k'))"
    using l(1) by (simp add: restart_def reset_game_def)
  moreover have "\<exists>p. agent_path ?g = Some p \<and> path_from_to (passages ?g) 0 (exit_cell ?g) p"
    unfolding p using l(8) by auto
  ultimately show ?thesis
    using l(2-7) by (intro exI[of _ ?g] exI[of _ k']) (simp add: reset_fields_def Let_def)
qed

text \<open>
  Claim C1, as amended. Level number and grid dimensions move in lockstep, the grid being
  three larger than the level: the constructor leaves level 1 with a grid of 4 by 4;
  after one level clear the level is 2 and the grid 5 by 5; after 24 clears from level 1
  the level is 25 and the grid 28 by 28, and reaching the exit there ends the game with
  the winning screen. A restart from any state (a terminal one
  included) resets the level to 1 and the dimensions to 4 by 4, with both tracked cells
  at 0; the pending path is cleared before the level is loaded and is then the path
  computed for the new level, from cell 0 to the exit.
\<close>

theorem level_progression:
  "(\<exists>g1 k1. MazeGame rnd k t0 t1 = Some (Inr (g1, k1)) \<and>
      level g1 = 1 \<and> cols g1 = 4 \<and> rows g1 = 4 \<and>
      (\<exists>g2 k2. clears rnd clock 1 k1 g1 = Some (Inr (Playing, g2, k2)) \<and>
         level g2 = 2 \<and> cols g2 = 5 \<and> rows g2 = 5) \<and>
      (\<exists>g25 k25. clears rnd clock 24 k1 g1 = Some (Inr (Playing, g25, k25)) \<and>
         level g25 = 25 \<and> cols g25 = 28 \<and> rows g25 = 28 \<and>
         clears rnd clock (Suc 24) k1 g1 =
           Some (Inr (Ended ''YOU WIN!'',
                      g25\<lparr>current_cell := int (exit_cell g25), game_over := True\<rparr>, k25)))) \<and>
   (\<exists>g' k'. restart rnd k now g = Some (Inr (g', k')) \<and>
      level g' = 1 \<and> cols g' = 4 \<and> rows g' = 4 \<and>
      current_cell g' = 0 \<and> agent_cell g' = 0 \<and>
      agent_path (reset_fields g) = Some [] \<and>
      (\<exists>p. agent_path g' = Some p \<and> path_from_to (passages g') 0 (exit_cell g') p))"
proof (rule conjI)
  from MazeGame_total[of rnd k t0 t1] obtain g1 k1 where
    g1: "MazeGame rnd k t0 t1 = Some (Inr (g1, k1))" "level g1 = 1" "cols g1 = 4" "rows g1 = 4"
    by blast
  have h: "level g1 + 1 \<le> LEVELS_TO_WIN" "level g1 + 24 \<le> LEVELS_TO_WIN"
    using g1(2) by (simp_all add: LEVELS_TO_WIN_def)
  from clears_levels[OF h(1), of rnd clock k1] g1 obtain g2 k2 where
    c2: "clears rnd clock 1 k1 g1 = Some (Inr (Playing, g2, k2))"
      "level g2 = 2" "cols g2 = 5" "rows g2 = 5" by auto
  from clears_levels[OF h(2), of rnd clock k1] g1 obtain g25 k25 where
    c25: "clears rnd clock 24 k1 g1 = Some (Inr (Playing, g25, k25))"
      "level g25 = 25" "cols g25 = 28" "rows g25 = 28" by auto
  have win: "clears rnd clock (Suc 24) k1 g1 =
      Some (Inr (Ended ''YOU WIN!'',
                 g25\<lparr>current_cell := int (exit_cell g25), game_over := True\<rparr>, k25))"
    unfolding clears.simps(2) c25(1) using c25(2)
    by (simp add: check_exit_def LEVELS_TO_WIN_def)
  from g1 c2 c25 win
  show "\<exists>g1 k1. MazeGame rnd k t0 t1 = Some (Inr (g1, k1)) \<and>
      level g1 = 1 \<and> cols g1 = 4 \<and> rows g1 = 4 \<and>
      (\<exists>g2 k2. clears rnd clock 1 k1 g1 = Some (Inr (Playing, g2, k2)) \<and>
         level g2 = 2 \<and> cols g2 = 5 \<and> rows g2 = 5) \<and>
      (\<exists>g25 k25. clears rnd clock 24 k1 g1 = Some (Inr (Playing, g25, k25)) \<and>
         level g25 = 25 \<and> cols g25 = 28 \<and> rows g25 = 28 \<and>
         clears rnd clock (Suc 24) k1 g1 =
           Some (Inr (Ended ''YOU WIN!'',
                      g25\<lparr>current_cell := int (exit_cell g25), game_over := True\<rparr>, k25)))"
    by blast
next
  from restart_total[of rnd k now g]
  show "\<exists>g' k'. restart rnd k now g = Some (Inr (g', k')) \<and>
      level g' = 1 \<and> cols g' = 4 \<and> rows g' = 4 \<and>
      current_cell g' = 0 \<and> agent_cell g' = 0 \<and>
      agent_path (reset_fields g) = Some [] \<and>
      (\<exists>p. agent_path g' = Some p \<and> path_from_to (passages g') 0 (exit_cell g') p)"
    by blast
qed

text \<open>
  Claim C1 as stated fails: the game the constructor builds is at level 1, and its grid
  is 4 by 4, not 3 by 3.
\<close>

theorem first_level_four_by_four:
  "MazeGame zeros 0 0 0 = Some (Inr (projr (the (MazeGame zeros 0 0 0)))) \<and>
   level (fst (projr (the (MazeGame zeros 0 0 0)))) = 1 \<and>
   cols (fst (projr (the (MazeGame zeros 0 0 0)))) = 4 \<and>
   rows (fst (projr (the (MazeGame zeros 0 0 0)))) = 4"
proof -
  from MazeGame_total[of zeros 0 0 0] obtain g1 k1 where
    "MazeGame zeros 0 0 0 = Some (Inr (g1, k1))" "level g1 = 1" "cols g1 = 4" "rows g1 = 4"
    by blast
  then show ?thesis by simp
qed

section \<open>Simple paths in a tree\<close>

lemma successively_nth:
  "successively P xs \<Longrightarrow> Suc k < length xs \<Longrightarrow> P (xs ! k) (xs ! Suc k)"
proof (induction P xs arbitrary: k rule: successively.induct)
  case (3 P x y xs)
  then show ?case by (cases k) auto
qed simp_all

lemma closed_walk_cycle:
  assumes w: "walk E xs" and d: "distinct xs" and l: "3 \<le> length xs"
    and c: "(last xs, hd xs) \<in> E"
  shows "cycle E xs"
  unfolding cycle_def
proof (intro conjI allI impI)
  fix k assume k: "k < length xs"
  from w have ne: "xs \<noteq> []" and s: "successively (\<lambda>a b. (a, b) \<in> E) xs"
    by (simp_all add: walk_def)
  show "(xs ! k, xs ! (Suc k mod length xs)) \<in> E"
  proof (cases "Suc k < length xs")
    case True
    then have "Suc k mod length xs = Suc k" by (rule mod_less)
    with successively_nth[OF s True] show ?thesis by simp
  next
    case False
    with k have e: "Suc k = length xs" by simp
    then have "Suc k mod length xs = 0" by simp
    moreover have "k = length xs - 1" using e by arith
    then have "xs ! k = last xs" using ne by (simp add: last_conv_nth)
    moreover have "xs ! 0 = hd xs" using ne by (simp add: hd_conv_nth)
    ultimately show ?thesis using c by simp
  qed
qed (use d l in auto)

lemma walk_Cons:
  "walk E (a # xs) \<longleftrightarrow> xs = [] \<or> (a, hd xs) \<in> E \<and> walk E xs"
  by (auto simp: walk_def successively_Cons)

lemma walk_append:
  "xs \<noteq> [] \<Longrightarrow> ys \<noteq> [] \<Longrightarrow>
   walk E (xs @ ys) \<longleftrightarrow> walk E xs \<and> walk E ys \<and> (last xs, hd ys) \<in> E"
  by (auto simp: walk_def successively_append_iff)

lemma walk_rev:
  assumes "sym E" "walk E xs"
  shows "walk E (rev xs)"
proof -
  from assms(2) have "successively (\<lambda>a b. (a, b) \<in> E) xs" by (simp add: walk_def)
  then have "successively (\<lambda>a b. (b, a) \<in> E) xs"
    by (rule successively_mono) (rule symD[OF assms(1)])
  with assms(2) show ?thesis by (simp add: walk_def)
qed

lemma trivial_path:
  assumes "hd q = a" "last q = a" "distinct q" "q \<noteq> []"
  shows "q = [a]"
proof (cases q)
  case (Cons x xs)
  with assms(1) have x: "x = a" by simp
  show ?thesis
  proof (cases "xs = []")
    case True
    with Cons x show ?thesis by simp
  next
    case False
    with Cons assms(2) have "a = last xs" by simp
    with False have "a \<in> set xs" by auto
    with Cons x assms(3) show ?thesis by simp
  qed
qed (use assms in simp)

lemma walk_prefix:
  assumes "walk E (pre @ x # post)"
  shows "walk E (pre @ [x])"
  using assms by (auto simp: walk_def successively_append_iff)

lemma walk_join:
  assumes "walk E (xs @ [x])" "walk E (x # ys)"
  shows "walk E (xs @ x # ys)"
proof -
  let ?P = "\<lambda>a b. (a, b) \<in> E"
  from assms(1) have 1: "successively ?P xs" and 2: "xs \<noteq> [] \<longrightarrow> (last xs, x) \<in> E"
    by (auto simp: walk_def successively_append_iff)
  from assms(2) have 3: "successively ?P (x # ys)" by (simp add: walk_def)
  show ?thesis using 1 2 3 by (auto simp: walk_def successively_append_iff)
qed

lemma fork_gives_cycle:
  assumes sym: "sym E"
    and p: "walk E (a # p')" "distinct (a # p')" "p' \<noteq> []"
    and q: "walk E (a # q')" "distinct (a # q')" "q' \<noteq> []"
    and l: "last p' = last q'" and ne: "hd p' \<noteq> hd q'"
  shows "\<exists>xs. cycle E xs"
proof -
  from p q have ab: "(a, hd p') \<in> E" "walk E p'" and ac: "(a, hd q') \<in> E" "walk E q'"
    by (simp_all add: walk_Cons)
  have "last p' \<in> set p'" using p(3) by (rule last_in_set)
  moreover have "last q' \<in> set q'" using q(3) by (rule last_in_set)
  ultimately have "\<exists>x \<in> set p'. x \<in> set q'" using l by auto
  from split_list_first_prop[OF this] obtain pre x post where
    ps: "p' = pre @ x # post" "x \<in> set q'" "\<forall>y \<in> set pre. y \<notin> set q'" by blast
  from split_list[OF ps(2)] obtain qpre qpost where qs: "q' = qpre @ x # qpost" by blast
  let ?C = "a # pre @ x # rev qpre"
  have w1: "walk E (pre @ [x])" using ab(2) unfolding ps(1) by (rule walk_prefix)
  have w2: "walk E (qpre @ [x])" using ac(2) unfolding qs by (rule walk_prefix)
  have hp: "hd (pre @ [x]) = hd p'" unfolding ps(1) by (cases pre) simp_all
  have hq: "hd (qpre @ [x]) = hd q'" unfolding qs by (cases qpre) simp_all
  have w3: "walk E (a # pre @ [x])" using w1 ab(1) hp by (simp add: walk_Cons)
  have w4: "walk E (x # rev qpre)" using walk_rev[OF sym w2] by simp
  have "walk E ((a # pre) @ x # rev qpre)"
  proof (rule walk_join)
    show "walk E ((a # pre) @ [x])" using w3 by simp
    show "walk E (x # rev qpre)" by (rule w4)
  qed
  then have W: "walk E ?C" by simp
  have d1: "a \<notin> set pre" "a \<noteq> x" "distinct pre" "x \<notin> set pre"
    using p(2) unfolding ps(1) by simp_all
  have d2: "a \<notin> set qpre" "distinct qpre" "x \<notin> set qpre"
    using q(2) unfolding qs by simp_all
  have d3: "set pre \<inter> set qpre = {}" using ps(3) unfolding qs by auto
  have D: "distinct ?C" using d1 d2 d3 by simp
  have "pre \<noteq> [] \<or> qpre \<noteq> []"
  proof (rule ccontr)
    assume "\<not> (pre \<noteq> [] \<or> qpre \<noteq> [])"
    then have "hd p' = x" "hd q' = x" unfolding ps(1) qs by simp_all
    with ne show False by simp
  qed
  then have L: "3 \<le> length ?C" by (cases pre; cases qpre) simp_all
  have "last ?C = hd q'"
    unfolding qs by (cases qpre) simp_all
  moreover have "(hd q', a) \<in> E" using sym ac(1) by (rule symD)
  ultimately have "(last ?C, hd ?C) \<in> E" by simp
  with W D L have "cycle E ?C" by (intro closed_walk_cycle)
  then show ?thesis by blast
qed

lemma unique_simple_path:
  assumes sym: "sym E" and ac: "\<forall>xs. \<not> cycle E xs"
  shows "walk E p \<Longrightarrow> distinct p \<Longrightarrow> walk E q \<Longrightarrow> distinct q \<Longrightarrow>
         hd p = hd q \<Longrightarrow> last p = last q \<Longrightarrow> p = q"
proof (induction p arbitrary: q)
  case Nil
  then show ?case by (simp add: walk_def)
next
  case (Cons a p')
  from Cons.prems(3) have "q \<noteq> []" by (simp add: walk_def)
  with Cons.prems(5) obtain q' where q: "q = a # q'" by (cases q) auto
  show ?case
  proof (cases "p' = []")
    case True
    with Cons.prems(6) q have "last q = a" "hd q = a" by simp_all
    with Cons.prems(4) \<open>q \<noteq> []\<close> have "q = [a]" by (intro trivial_path)
    with True show ?thesis by simp
  next
    case False
    have q': "q' \<noteq> []"
    proof
      assume "q' = []"
      with q Cons.prems(6) False have "a = last p'" by simp
      with False have "a \<in> set p'" by auto
      with Cons.prems(2) show False by simp
    qed
    from False q' Cons.prems(6) q have l: "last p' = last q'" by simp
    show ?thesis
    proof (cases "hd p' = hd q'")
      case True
      from Cons.prems False q' q have "walk E p'" "distinct p'" "walk E q'" "distinct q'"
        by (simp_all add: walk_Cons)
      from Cons.IH[OF this True l] q show ?thesis by simp
    next
      case ne: False
      from fork_gives_cycle[OF sym Cons.prems(1,2) False _ _ q' l ne] Cons.prems(3,4) q ac
      show ?thesis by blast
    qed
  qed
qed

lemma walk_to_simple:
  "walk E q \<Longrightarrow> \<exists>r. walk E r \<and> distinct r \<and> hd r = hd q \<and> last r = last q \<and>
     length r \<le> length q"
proof (induction q)
  case Nil
  then show ?case by (simp add: walk_def)
next
  case (Cons a q)
  show ?case
  proof (cases "q = []")
    case True
    then show ?thesis by (intro exI[of _ "[a]"]) (simp add: walk_def)
  next
    case False
    with Cons.prems have e: "(a, hd q) \<in> E" and w: "walk E q" by (simp_all add: walk_Cons)
    from Cons.IH[OF w] obtain r where r: "walk E r" "distinct r" "hd r = hd q"
      "last r = last q" "length r \<le> length q" by blast
    from r(1) have rne: "r \<noteq> []" by (simp add: walk_def)
    show ?thesis
    proof (cases "a \<in> set r")
      case False
      have "walk E (a # r)" using r(1,3) e by (simp add: walk_Cons)
      with False r rne \<open>q \<noteq> []\<close> show ?thesis by (intro exI[of _ "a # r"]) simp
    next
      case True
      from split_list[OF this] obtain r1 r2 where s: "r = r1 @ a # r2" by blast
      have "walk E (a # r2)" using r(1) unfolding s
        by (auto simp: walk_def successively_append_iff)
      moreover have "distinct (a # r2)" using r(2) unfolding s by simp
      moreover have "last (a # r2) = last (a # q)" using r(4) False unfolding s by simp
      moreover have "length (a # r2) \<le> length (a # q)" using r(5) unfolding s by simp
      ultimately show ?thesis by (intro exI[of _ "a # r2"]) simp
    qed
  qed
qed

lemma tree_path:
  assumes wf: "wf_grid g" and st: "spanning_tree g" and s: "start < n_cells g"
    and reach: "(start, target) \<in> (passages g)\<^sup>*"
  shows "\<exists>p. compute_path g start target = Some (Inr (Some p)) \<and>
           path_from_to (passages g) start target p \<and> distinct p \<and>
           (\<forall>q. path_from_to (passages g) start target q \<longrightarrow> length p \<le> length q) \<and>
           (\<forall>q. path_from_to (passages g) start target q \<and> distinct q \<longrightarrow> q = p) \<and>
           (start = target \<longrightarrow> p = [start])"
proof -
  let ?E = "passages g"
  from st have sym: "sym ?E" and ac: "\<forall>xs. \<not> cycle ?E xs" by (simp_all add: spanning_tree_def)
  from compute_path_total[OF wf s, of target] reach obtain p where
    p: "compute_path g start target = Some (Inr (Some p))"
      "path_from_to ?E start target p" "distinct p"
    by (auto split: option.splits)
  from p(2) have pw: "walk ?E p" "hd p = start" "last p = target"
    by (simp_all add: path_from_to_def)
  have uniq: "q = p" if "path_from_to ?E start target q" "distinct q" for q
  proof -
    from that(1) have "walk ?E q" "hd q = start" "last q = target"
      by (simp_all add: path_from_to_def)
    with unique_simple_path[OF sym ac, of q p] that(2) pw p(3) show ?thesis by simp
  qed
  have short: "length p \<le> length q" if "path_from_to ?E start target q" for q
  proof -
    from that have q: "walk ?E q" "hd q = start" "last q = target"
      by (simp_all add: path_from_to_def)
    from walk_to_simple[OF q(1)] obtain r where r: "walk ?E r" "distinct r" "hd r = hd q"
      "last r = last q" "length r \<le> length q" by blast
    from r(1,3,4) q(2,3) have "path_from_to ?E start target r" by (simp add: path_from_to_def)
    from uniq[OF this r(2)] r(5) show ?thesis by simp
  qed
  have triv: "p = [start]" if "start = target"
    using that pw p(3) by (intro trivial_path) (simp_all add: walk_def)
  from p uniq short triv show ?thesis by blast
qed

lemma doors_links:
  assumes wf: "wf_grid g" and ok: "walls_ok g"
  shows "doors g = links g"
proof (intro set_eqI iffI)
  let ?C = "cols g" and ?R = "rows g"
  from wf have C: "0 < ?C" and n: "n_cells g = ?C * ?R" by (auto simp: wf_grid_def)
  fix x assume "x \<in> links g"
  then obtain i d where x: "x = (i, nb ?C d i)" and i: "i < n_cells g"
    and f: "\<not> flag d (maze_cells g ! i)" by (auto simp: links_def)
  from ok i f have g: "ingrid ?C ?R d i" and o: "\<not> flag (opp d) (maze_cells g ! nb ?C d i)"
    unfolding walls_ok_def by blast+
  from i n have i': "i < ?C * ?R" by simp
  note nbs = wf_grid_nb[OF wf i g]
  have "open_between g i (nb ?C d i)"
  proof (cases d)
    case U
    with g have "?C \<le> i" by (simp add: up_ge)
    with U f o i nbs(1) show ?thesis by (simp add: open_between_def)
  next
    case D
    with f o i nbs(1) show ?thesis by (simp add: open_between_def)
  next
    case L
    with g have m: "0 < i mod ?C" by simp
    then have "0 < i" by (cases "i = 0") auto
    with L f o i nbs(1) div_pred_same[OF m] show ?thesis by (simp add: open_between_def)
  next
    case Rt
    with g have m: "i mod ?C < ?C - 1" by simp
    with Rt f o i nbs(1) div_succ_same[OF m] show ?thesis by (simp add: open_between_def)
  qed
  with x show "x \<in> doors g" by (simp add: doors_def)
next
  fix x assume "x \<in> doors g"
  then obtain i j where x: "x = (i, j)" and b: "open_between g i j"
    by (auto simp: doors_def)
  from b have i: "i < n_cells g" by (simp add: open_between_def)
  from b consider "j = nb (cols g) D i" "\<not> flag D (maze_cells g ! i)"
    | "j = nb (cols g) U i" "\<not> flag U (maze_cells g ! i)"
    | "j = nb (cols g) Rt i" "\<not> flag Rt (maze_cells g ! i)"
    | "j = nb (cols g) L i" "\<not> flag L (maze_cells g ! i)"
    by (auto simp: open_between_def)
  then have "(i, j) \<in> links g" using i unfolding links_def by cases blast+
  with x show "x \<in> links g" by simp
qed

lemma doors_passages:
  assumes "wf_grid g" "walls_ok g"
  shows "doors g = passages g"
  using doors_links[OF assms] passages_links[OF assms] by simp

text \<open>
  Claim C4. On every generated maze every cell can be reached from every start cell
  through open boundaries (\<open>doors\<close>: pairs of facing wall flags that are both false).
  For every start cell and every target reachable from it in this way,
  \<^verbatim>\<open>compute_path\<close> returns a sequence of cells that begins at the start, ends at the
  target and joins consecutive cells through open boundaries; no walk from the start to
  the target through open boundaries is shorter, and every simple such path is equal to
  it. For equal start and target, as on the maze of a single cell, the path is the one
  cell.
\<close>

theorem compute_path_shortest:
  assumes "0 < cols g0" and "0 < rows g0" and "n_cells g0 = cols g0 * rows g0"
    and "generate_maze rnd k g0 = Some (Inr (g, k'))"
    and "start < n_cells g" and "(start, target) \<in> (doors g)\<^sup>*"
  shows "(\<forall>t < n_cells g. (start, t) \<in> (doors g)\<^sup>*) \<and>
         (\<exists>p. compute_path g start target = Some (Inr (Some p)) \<and>
            path_from_to (doors g) start target p \<and> distinct p \<and>
            (\<forall>q. path_from_to (doors g) start target q \<longrightarrow> length p \<le> length q) \<and>
            (\<forall>q. path_from_to (doors g) start target q \<and> distinct q \<longrightarrow> q = p) \<and>
            (start = target \<longrightarrow> p = [start]))"
proof -
  from generate_maze_total[OF assms(1-3), of rnd k] assms(4) obtain stack' current' where
    inv: "bt_inv (g, stack', current', n_cells g, k')" by auto
  then have wf: "wf_grid g" and ok: "walls_ok g" by (simp_all add: bt_inv_def)
  have st: "spanning_tree g" using inv by (rule bt_inv_spanning_tree)
  have d: "doors g = passages g" using wf ok by (rule doors_passages)
  have "\<forall>t < n_cells g. (start, t) \<in> (doors g)\<^sup>*"
    using st assms(5) unfolding d spanning_tree_def by blast
  moreover have "\<exists>p. compute_path g start target = Some (Inr (Some p)) \<and>
            path_from_to (doors g) start target p \<and> distinct p \<and>
            (\<forall>q. path_from_to (doors g) start target q \<longrightarrow> length p \<le> length q) \<and>
            (\<forall>q. path_from_to (doors g) start target q \<and> distinct q \<longrightarrow> q = p) \<and>
            (start = target \<longrightarrow> p = [start])"
    using tree_path[OF wf st assms(5)] assms(6) unfolding d by blast
  ultimately show ?thesis by blast
qed

text \<open>
  On the maze of two rows and two columns generated with every draw 0, the path from
  cell 0 to cell 1 goes down, right and up: the wall between cells 0 and 1 is closed.
  On the generated maze of a single cell the path from cell 0 to itself is that cell.
\<close>

theorem compute_path_shortest_witness:
  "0 < cols (blank 2 2) \<and> 0 < rows (blank 2 2) \<and>
   n_cells (blank 2 2) = cols (blank 2 2) * rows (blank 2 2) \<and>
   generate_maze zeros 0 (blank 2 2) =
     Some (Inr (fst (projr (the (generate_maze zeros 0 (blank 2 2)))),
                snd (projr (the (generate_maze zeros 0 (blank 2 2)))))) \<and>
   0 < n_cells (fst (projr (the (generate_maze zeros 0 (blank 2 2))))) \<and>
   (0, 1) \<in> (doors (fst (projr (the (generate_maze zeros 0 (blank 2 2))))))\<^sup>* \<and>
   \<not> open_between (fst (projr (the (generate_maze zeros 0 (blank 2 2))))) 0 1 \<and>
   compute_path (fst (projr (the (generate_maze zeros 0 (blank 2 2))))) 0 1 =
     Some (Inr (Some [0, 2, 3, 1])) \<and>
   path_from_to (doors (fst (projr (the (generate_maze zeros 0 (blank 2 2)))))) 0 1 [0, 2, 3, 1] \<and>
   compute_path (fst (projr (the (generate_maze zeros 0 (blank 1 1))))) 0 0 = Some (Inr (Some [0]))"
proof -
  let ?g = "fst (projr (the (generate_maze zeros 0 (blank 2 2))))"
  let ?k = "snd (projr (the (generate_maze zeros 0 (blank 2 2))))"
  have h: "0 < cols (blank 2 2)" "0 < rows (blank 2 2)"
    "n_cells (blank 2 2) = cols (blank 2 2) * rows (blank 2 2)"
    by (simp_all add: blank_def)
  from generate_maze_total[OF h, of zeros 0] obtain g' stack' current' k' where
    r: "generate_maze zeros 0 (blank 2 2) = Some (Inr (g', k'))"
      "bt_inv (g', stack', current', n_cells g', k')"
      "g' = (blank 2 2)\<lparr>cell_size := cell_size g', offset := offset g',
             maze_cells := maze_cells g'\<rparr>" by blast
  then have e: "generate_maze zeros 0 (blank 2 2) = Some (Inr (?g, ?k))" by simp
  have "n_cells g' = 4" by (subst r(3)) (simp add: blank_def)
  with r(1) have n: "n_cells ?g = 4" by simp
  then have n0: "0 < n_cells ?g" by simp
  have wf: "wf_grid ?g" and ok: "walls_ok ?g" using r by (simp_all add: bt_inv_def)
  have st: "spanning_tree ?g" using r(1,2) by (simp add: bt_inv_spanning_tree)
  have re: "(0, 1) \<in> (doors ?g)\<^sup>*"
    using st n unfolding doors_passages[OF wf ok] spanning_tree_def by simp
  have c: "compute_path ?g 0 1 = Some (Inr (Some [0, 2, 3, 1]))" by code_simp
  have nd: "\<not> open_between ?g 0 1" by code_simp
  have one: "compute_path (fst (projr (the (generate_maze zeros 0 (blank 1 1))))) 0 0 =
      Some (Inr (Some [0]))" by code_simp
  from compute_path_shortest[OF h e n0 re] c
  have "path_from_to (doors ?g) 0 1 [0, 2, 3, 1]" by auto
  with h e n0 re nd c one show ?thesis by blast
qed

end
